theory Spec2Isabelle
  imports Complex_Main "HOL-Library.Product_Lexorder" "HOL-Library.AList" "HOL-Library.Multiset"
begin

section \<open>The board (minesweeper_engine.py)\<close>

text \<open>
  A coordinate is a Python tuple \<open>(row, col)\<close> of two unbounded integers. A cell is the
  dataclass \<open>Cell\<close>; a board is a list of rows, each a list of cells.
\<close>

type_synonym coord = "int \<times> int"

record Cell =
  is_mine :: bool
  is_revealed :: bool
  is_flagged :: bool
  adjacent_mines :: int

type_synonym board = "Cell list list"

datatype error = IndexError | StopIteration | KeyError | RecursionError

definition DIRECTIONS :: "(int \<times> int) list" where
  "DIRECTIONS = [(-1, -1), (-1, 0), (-1, 1), (0, -1), (0, 1), (1, -1), (1, 0), (1, 1)]"

text \<open>\<open>board[row][col]\<close> for indices that the callers have checked to be non-negative.\<close>

definition cell_at :: "board \<Rightarrow> coord \<Rightarrow> Cell" where
  "cell_at board p = board ! nat (fst p) ! nat (snd p)"

text \<open>\<open>rows = len(board)\<close> and \<open>cols = len(board[0]) if rows > 0 else 0\<close>.\<close>

definition board_rows :: "board \<Rightarrow> int" where
  "board_rows board = int (length board)"

definition board_cols :: "board \<Rightarrow> int" where
  "board_cols board = (if board_rows board > 0 then int (length (board ! 0)) else 0)"

text \<open>
  The cells visited by \<open>for row in range(rows): for col in range(cols)\<close>, in the order
  of the visit.
\<close>

definition scan :: "int \<Rightarrow> int \<Rightarrow> coord list" where
  "scan rows cols = List.product [0..rows - 1] [0..cols - 1]"

text \<open>
  Every scan of the solver reads \<open>board[row][col]\<close> for each of these cells. Python raises
  \<open>IndexError\<close> at the first one that the board does not have; no reading is negative,
  so no index wraps around. \<open>covers\<close> says that no such cell exists.
\<close>

definition covers :: "board \<Rightarrow> int \<Rightarrow> int \<Rightarrow> bool" where
  "covers board rows cols =
     list_all (\<lambda>p. nat (fst p) < length board \<and> nat (snd p) < length (board ! nat (fst p)))
       (scan rows cols)"

text \<open>
  The neighbours of a cell that pass the test
  \<open>0 <= n_row < rows and 0 <= n_col < cols\<close>, in the order of \<open>DIRECTIONS\<close>.
\<close>

definition neighbours :: "int \<Rightarrow> int \<Rightarrow> coord \<Rightarrow> coord list" where
  "neighbours rows cols p =
     filter (\<lambda>n. 0 \<le> fst n \<and> fst n < rows \<and> 0 \<le> snd n \<and> snd n < cols)
       (map (\<lambda>d. (fst p + fst d, snd p + snd d)) DIRECTIONS)"

section \<open>The constraint generator (Solver._generate_constraints)\<close>

text \<open>A constraint is a frozenset of cells and the number of mines required among them.\<close>

type_synonym constraint = "coord set \<times> int"

text \<open>The body of the loop over \<open>DIRECTIONS\<close>, on the pair
  \<open>(unknown_neighbors, known_mine_count)\<close>.\<close>

definition classify_neighbour ::
  "board \<Rightarrow> coord set \<Rightarrow> coord set \<Rightarrow> coord \<Rightarrow> coord set \<times> int \<Rightarrow> coord set \<times> int" where
  "classify_neighbour board known_safe known_mines n acc =
     (if n \<in> known_mines \<or> is_flagged (cell_at board n) then (fst acc, snd acc + 1)
      else if \<not> is_revealed (cell_at board n) \<and> n \<notin> known_safe then (insert n (fst acc), snd acc)
      else acc)"

text \<open>The body of the loop over the cells: the constraints that one cell appends.\<close>

definition cell_constraints ::
  "board \<Rightarrow> int \<Rightarrow> int \<Rightarrow> coord set \<Rightarrow> coord set \<Rightarrow> coord \<Rightarrow> constraint list" where
  "cell_constraints board rows cols known_safe known_mines p =
     (let cell = cell_at board p in
      if \<not> is_revealed cell \<or> is_mine cell \<or> adjacent_mines cell = 0 then []
      else
        let acc = fold (classify_neighbour board known_safe known_mines)
                    (neighbours rows cols p) ({}, 0);
            unknown_neighbors = fst acc;
            known_mine_count = snd acc
        in if unknown_neighbors \<noteq> {}
           then [(unknown_neighbors, adjacent_mines cell - known_mine_count)]
           else [])"

definition constraints_scan ::
  "board \<Rightarrow> int \<Rightarrow> int \<Rightarrow> coord set \<Rightarrow> coord set \<Rightarrow> constraint list" where
  "constraints_scan board rows cols known_safe known_mines =
     concat (map (cell_constraints board rows cols known_safe known_mines) (scan rows cols))"

definition generate_constraints ::
  "board \<Rightarrow> int \<Rightarrow> int \<Rightarrow> coord set \<Rightarrow> coord set \<Rightarrow> error + constraint list" where
  "generate_constraints board rows cols known_safe known_mines =
     (if covers board rows cols
      then Inr (constraints_scan board rows cols known_safe known_mines)
      else Inl IndexError)"

section \<open>The basic rules (Solver._apply_basic_rules)\<close>

text \<open>The body of the loop over \<open>DIRECTIONS\<close>, on the pair
  \<open>(unrevealed_n_cells, flagged_cell_count)\<close>.\<close>

definition count_neighbour ::
  "board \<Rightarrow> coord set \<Rightarrow> coord set \<Rightarrow> coord \<Rightarrow> coord list \<times> int \<Rightarrow> coord list \<times> int" where
  "count_neighbour board known_safe known_mines n acc =
     (if \<not> is_revealed (cell_at board n) then
        (if is_flagged (cell_at board n) \<or> n \<in> known_mines then (fst acc, snd acc + 1)
         else if n \<notin> known_safe \<and> n \<notin> known_mines then (fst acc @ [n], snd acc)
         else acc)
      else acc)"

text \<open>The body of the loop over the cells, on the pair \<open>(safe_cells, mine_cells)\<close>.\<close>

definition basic_cell ::
  "board \<Rightarrow> int \<Rightarrow> int \<Rightarrow> coord set \<Rightarrow> coord set \<Rightarrow> coord \<Rightarrow>
     coord set \<times> coord set \<Rightarrow> coord set \<times> coord set" where
  "basic_cell board rows cols known_safe known_mines p found =
     (let cell = cell_at board p in
      if \<not> is_revealed cell \<or> is_mine cell then found
      else
        let acc = fold (count_neighbour board known_safe known_mines)
                    (neighbours rows cols p) ([], 0);
            unrevealed_n_cells = fst acc;
            flagged_cell_count = snd acc
        in if unrevealed_n_cells \<noteq> [] \<and>
              adjacent_mines cell = flagged_cell_count + int (length unrevealed_n_cells)
           then (fst found, snd found \<union> {c \<in> set unrevealed_n_cells. c \<notin> known_mines})
           else if unrevealed_n_cells \<noteq> [] \<and> adjacent_mines cell = flagged_cell_count
           then (fst found \<union> {c \<in> set unrevealed_n_cells. c \<notin> known_safe}, snd found)
           else found)"

definition basic_scan ::
  "board \<Rightarrow> int \<Rightarrow> int \<Rightarrow> coord set \<Rightarrow> coord set \<Rightarrow> coord set \<times> coord set" where
  "basic_scan board rows cols known_safe known_mines =
     fold (basic_cell board rows cols known_safe known_mines) (scan rows cols) ({}, {})"

definition apply_basic_rules ::
  "board \<Rightarrow> int \<Rightarrow> int \<Rightarrow> coord set \<Rightarrow> coord set \<Rightarrow> error + coord set \<times> coord set" where
  "apply_basic_rules board rows cols known_safe known_mines =
     (if covers board rows cols
      then Inr (basic_scan board rows cols known_safe known_mines)
      else Inl IndexError)"

section \<open>Subset elimination (Solver._apply_csp_solver)\<close>

text \<open>The variables of one pass of the \<open>while flag\<close> loop.\<close>

record pass_state =
  new_constraints :: "constraint list"
  processed :: "nat set"
  safe_cells :: "coord set"
  mine_cells :: "coord set"
  flag :: bool
  added :: bool

text \<open>The block under each of the two subset tests: the boundary cases of the derived
  constraint, then \<open>processed.add(j)\<close>.\<close>

definition resolve_pair :: "nat \<Rightarrow> coord set \<Rightarrow> int \<Rightarrow> pass_state \<Rightarrow> pass_state" where
  "resolve_pair j new_limits new_count st =
     (let st' =
        (if new_count = 0
         then st\<lparr>safe_cells := safe_cells st \<union> new_limits, flag := True\<rparr>
         else if new_count = int (card new_limits)
         then st\<lparr>mine_cells := mine_cells st \<union> new_limits, flag := True\<rparr>
         else if new_limits \<noteq> {}
         then st\<lparr>new_constraints := new_constraints st @ [(new_limits, new_count)],
                 added := True\<rparr>
         else st)
      in st'\<lparr>processed := insert j (processed st')\<rparr>)"

text \<open>The body of the inner loop \<open>for j, (limits2, count2) in enumerate(constraints)\<close>.\<close>

definition inner_step :: "nat \<Rightarrow> constraint \<Rightarrow> nat \<times> constraint \<Rightarrow> pass_state \<Rightarrow> pass_state" where
  "inner_step i c1 jc st =
     (let limits1 = fst c1; count1 = snd c1;
          j = fst jc; limits2 = fst (snd jc); count2 = snd (snd jc)
      in if i = j \<or> j \<in> processed st then st
         else if limits1 \<subseteq> limits2 \<and> limits1 \<noteq> limits2
         then resolve_pair j (limits2 - limits1) (count2 - count1) st
         else if limits2 \<subseteq> limits1 \<and> limits1 \<noteq> limits2
         then resolve_pair j (limits1 - limits2) (count1 - count2) st
         else st)"

text \<open>The block under \<open>if not added and i not in processed\<close>: the boundary cases of
  the constraint itself.\<close>

definition resolve_single :: "coord set \<Rightarrow> int \<Rightarrow> pass_state \<Rightarrow> pass_state" where
  "resolve_single limits1 count1 st =
     (if count1 = 0
      then st\<lparr>safe_cells := safe_cells st \<union> limits1, flag := True\<rparr>
      else if count1 = int (card limits1)
      then st\<lparr>mine_cells := mine_cells st \<union> limits1, flag := True\<rparr>
      else st\<lparr>new_constraints := new_constraints st @ [(limits1, count1)]\<rparr>)"

text \<open>The body of the outer loop \<open>for i, (limits1, count1) in enumerate(constraints)\<close>.\<close>

definition outer_step :: "constraint list \<Rightarrow> nat \<times> constraint \<Rightarrow> pass_state \<Rightarrow> pass_state" where
  "outer_step constraints ic st =
     (let i = fst ic; limits1 = fst (snd ic); count1 = snd (snd ic)
      in if i \<in> processed st then st
         else
           let st' = fold (inner_step i (limits1, count1)) (enumerate 0 constraints)
                       (st\<lparr>added := False\<rparr>)
           in if \<not> added st' \<and> i \<notin> processed st'
              then resolve_single limits1 count1 st'
              else st')"

text \<open>One pass: \<open>flag = False\<close>, fresh \<open>new_constraints\<close> and \<open>processed\<close>, then the
  outer loop. The sets \<open>safe_cells\<close> and \<open>mine_cells\<close> live across the passes.\<close>

definition csp_pass :: "constraint list \<Rightarrow> coord set \<Rightarrow> coord set \<Rightarrow> pass_state" where
  "csp_pass constraints safe mine =
     fold (outer_step constraints) (enumerate 0 constraints)
       \<lparr>new_constraints = [], processed = {}, safe_cells = safe, mine_cells = mine,
        flag = False, added = False\<rparr>"

text \<open>The constraints that the pass hands to the next one.\<close>

definition next_constraints ::
  "board \<Rightarrow> int \<Rightarrow> int \<Rightarrow> coord set \<Rightarrow> coord set \<Rightarrow> pass_state \<Rightarrow> constraint list" where
  "next_constraints board rows cols known_safe known_mines st =
     (if flag st \<and> (safe_cells st \<noteq> {} \<or> mine_cells st \<noteq> {})
      then constraints_scan board rows cols (known_safe \<union> safe_cells st)
             (known_mines \<union> mine_cells st)
      else new_constraints st)"


section \<open>Termination of the two loops\<close>





definition grid :: "int \<Rightarrow> int \<Rightarrow> coord set" where
  "grid rows cols = set (scan rows cols)"

lemma grid_iff: "p \<in> grid rows cols \<longleftrightarrow> 0 \<le> fst p \<and> fst p < rows \<and> 0 \<le> snd p \<and> snd p < cols"
  by (cases p) (auto simp: grid_def scan_def)

lemma finite_grid: "finite (grid rows cols)"
  by (simp add: grid_def)

lemma neighbours_grid: "n \<in> set (neighbours rows cols p) \<Longrightarrow> n \<in> grid rows cols"
  by (simp add: neighbours_def grid_iff)

lemma distinct_neighbours: "distinct (neighbours rows cols p)"
  unfolding neighbours_def
  by (rule distinct_filter) (simp add: DIRECTIONS_def distinct_map inj_on_def)

text \<open>How the two neighbour loops sort a neighbour.\<close>

definition known_mine :: "board \<Rightarrow> coord set \<Rightarrow> coord \<Rightarrow> bool" where
  "known_mine board known_mines n \<longleftrightarrow> n \<in> known_mines \<or> is_flagged (cell_at board n)"

definition unknown :: "board \<Rightarrow> coord set \<Rightarrow> coord set \<Rightarrow> coord \<Rightarrow> bool" where
  "unknown board known_safe known_mines n \<longleftrightarrow>
     \<not> is_revealed (cell_at board n) \<and> \<not> is_flagged (cell_at board n) \<and>
     n \<notin> known_safe \<and> n \<notin> known_mines"

lemma fold_classify:
  "fold (classify_neighbour board ks km) ns acc =
     (fst acc \<union> {n \<in> set ns. unknown board ks km n},
      snd acc + int (length (filter (known_mine board km) ns)))"
  by (induction ns arbitrary: acc)
     (auto simp: classify_neighbour_def unknown_def known_mine_def)

lemma fold_count:
  "fold (count_neighbour board ks km) ns acc =
     (fst acc @ filter (unknown board ks km) ns,
      snd acc + int (length (filter (\<lambda>n. \<not> is_revealed (cell_at board n) \<and> known_mine board km n) ns)))"
  by (induction ns arbitrary: acc)
     (auto simp: count_neighbour_def unknown_def known_mine_def)


lemma fold_inv:
  assumes "P s" and "\<And>x s. x \<in> set xs \<Longrightarrow> P s \<Longrightarrow> P (f x s)"
  shows "P (fold f xs s)"
  using assms by (induction xs arbitrary: s) auto

text \<open>The cells of the scan that are hidden, unflagged and in neither known set.\<close>

definition open_cells :: "board \<Rightarrow> int \<Rightarrow> int \<Rightarrow> coord set \<Rightarrow> coord set \<Rightarrow> coord set" where
  "open_cells board rows cols ks km = {n \<in> grid rows cols. unknown board ks km n}"

lemma cell_constraints_cases:
  "cell_constraints board rows cols ks km p = [] \<or>
   cell_constraints board rows cols ks km p =
     [({n \<in> set (neighbours rows cols p). unknown board ks km n},
       adjacent_mines (cell_at board p) -
         int (length (filter (known_mine board km) (neighbours rows cols p))))] \<and>
     is_revealed (cell_at board p) \<and> \<not> is_mine (cell_at board p) \<and>
     adjacent_mines (cell_at board p) \<noteq> 0 \<and>
     {n \<in> set (neighbours rows cols p). unknown board ks km n} \<noteq> {}"
  by (simp add: cell_constraints_def Let_def fold_classify)

lemma constraints_scan_limits:
  assumes "c \<in> set (constraints_scan board rows cols ks km)"
  shows "fst c \<noteq> {} \<and> finite (fst c) \<and> fst c \<subseteq> open_cells board rows cols ks km"
proof -
  from assms obtain p where "c \<in> set (cell_constraints board rows cols ks km p)"
    by (auto simp: constraints_scan_def)
  with cell_constraints_cases [of board rows cols ks km p]
  have "fst c = {n \<in> set (neighbours rows cols p). unknown board ks km n}" "fst c \<noteq> {}"
    by auto
  then show ?thesis
    by (auto simp: open_cells_def neighbours_grid)
qed

lemma basic_cell_bound:
  assumes "fst found \<union> snd found \<subseteq> open_cells board rows cols ks km"
  shows "fst (basic_cell board rows cols ks km p found) \<union>
         snd (basic_cell board rows cols ks km p found) \<subseteq> open_cells board rows cols ks km"
  using assms
  by (auto simp: basic_cell_def Let_def fold_count open_cells_def neighbours_grid)

lemma basic_scan_bound:
  "fst (basic_scan board rows cols ks km) \<union> snd (basic_scan board rows cols ks km)
     \<subseteq> open_cells board rows cols ks km"
  unfolding basic_scan_def
  by (rule fold_inv [where P = "\<lambda>found. fst found \<union> snd found \<subseteq> open_cells board rows cols ks km"])
     (use basic_cell_bound in auto)

lemma open_cells_fresh: "open_cells board rows cols ks km \<subseteq> grid rows cols - (ks \<union> km)"
  by (auto simp: open_cells_def unknown_def)

lemma card_grid_less:
  assumes "X \<subseteq> grid rows cols - A" "X \<noteq> {}"
  shows "card (grid rows cols - (A \<union> X)) < card (grid rows cols - A)"
proof (rule psubset_card_mono)
  show "finite (grid rows cols - A)" by (simp add: finite_grid)
  from assms show "grid rows cols - (A \<union> X) \<subset> grid rows cols - A" by blast
qed

function basic_loop ::
  "board \<Rightarrow> int \<Rightarrow> int \<Rightarrow> coord set \<Rightarrow> coord set \<Rightarrow> error + coord set \<times> coord set" where
  "basic_loop board rows cols safe mine =
     (case apply_basic_rules board rows cols safe mine of
        Inl e \<Rightarrow> Inl e
      | Inr new \<Rightarrow>
          if fst new \<noteq> {} \<or> snd new \<noteq> {}
          then basic_loop board rows cols (safe \<union> fst new) (mine \<union> snd new)
          else Inr (safe, mine))"
  by pat_completeness auto

lemma basic_loop_decreases:
  assumes "apply_basic_rules board rows cols safe mine = Inr new" "fst new \<noteq> {} \<or> snd new \<noteq> {}"
  shows "card (grid rows cols - ((safe \<union> fst new) \<union> (mine \<union> snd new)))
           < card (grid rows cols - (safe \<union> mine))"
proof -
  from assms(1) have new: "new = basic_scan board rows cols safe mine"
    by (auto simp: apply_basic_rules_def split: if_splits)
  have "fst new \<union> snd new \<subseteq> grid rows cols - (safe \<union> mine)"
    using basic_scan_bound [of board rows cols safe mine] open_cells_fresh [of board rows cols safe mine]
    unfolding new by blast
  from card_grid_less [OF this] assms(2)
  show ?thesis by (simp add: Un_ac)
qed

termination basic_loop
  by (relation "measure (\<lambda>(board, rows, cols, safe, mine). card (grid rows cols - (safe \<union> mine)))")
     (auto dest: basic_loop_decreases)

declare basic_loop.simps [simp del]


definition limits_of :: "constraint list \<Rightarrow> coord set" where
  "limits_of cs = \<Union> (fst ` set cs)"

definition degenerate :: "constraint \<Rightarrow> bool" where
  "degenerate c \<longleftrightarrow> fst c = {} \<and> snd c = 0"

definition pass_inv :: "coord set \<Rightarrow> coord set \<Rightarrow> coord set \<Rightarrow> pass_state \<Rightarrow> bool" where
  "pass_inv C safe mine st \<longleftrightarrow>
     safe \<subseteq> safe_cells st \<and> mine \<subseteq> mine_cells st \<and>
     safe_cells st \<union> mine_cells st \<subseteq> safe \<union> mine \<union> C \<and>
     (\<forall>c \<in> set (new_constraints st). fst c \<subseteq> C \<and> \<not> degenerate c) \<and>
     (\<not> flag st \<longrightarrow> safe_cells st = safe \<and> mine_cells st = mine)"

definition pass_prog :: "coord set \<Rightarrow> pass_state \<Rightarrow> bool" where
  "pass_prog C st \<longleftrightarrow> (flag st \<longrightarrow> (safe_cells st \<union> mine_cells st) \<inter> C \<noteq> {})"

lemma resolve_pair_inv:
  "pass_inv C safe mine st \<Longrightarrow> new_limits \<subseteq> C \<Longrightarrow>
   pass_inv C safe mine (resolve_pair j new_limits new_count st)"
  by (auto simp: pass_inv_def resolve_pair_def Let_def degenerate_def)

lemma resolve_pair_prog:
  "pass_prog C st \<Longrightarrow> new_limits \<subseteq> C \<Longrightarrow> new_limits \<noteq> {} \<Longrightarrow>
   pass_prog C (resolve_pair j new_limits new_count st)"
  by (auto simp: pass_prog_def resolve_pair_def Let_def)

lemma inner_step_inv:
  "pass_inv C safe mine st \<Longrightarrow> fst c1 \<subseteq> C \<Longrightarrow> fst (snd jc) \<subseteq> C \<Longrightarrow>
   pass_inv C safe mine (inner_step i c1 jc st)"
  by (auto simp: inner_step_def Let_def intro!: resolve_pair_inv)

lemma inner_step_prog:
  "pass_prog C st \<Longrightarrow> fst c1 \<subseteq> C \<Longrightarrow> fst (snd jc) \<subseteq> C \<Longrightarrow>
   pass_prog C (inner_step i c1 jc st)"
  by (auto simp: inner_step_def Let_def intro!: resolve_pair_prog)

lemma in_enumerate_snd: "jc \<in> set (enumerate n cs) \<Longrightarrow> snd jc \<in> set cs"
proof -
  assume "jc \<in> set (enumerate n cs)"
  then have "snd jc \<in> set (map snd (enumerate n cs))" by (simp del: map_snd_enumerate)
  then show ?thesis by simp
qed

lemma in_enumerate_limits:
  "jc \<in> set (enumerate n cs) \<Longrightarrow> fst (snd jc) \<subseteq> limits_of cs"
  by (auto simp: limits_of_def dest: in_enumerate_snd)

lemma inner_fold_inv:
  assumes "pass_inv (limits_of cs) safe mine st" "limits1 \<subseteq> limits_of cs"
  shows "pass_inv (limits_of cs) safe mine
           (fold (inner_step i (limits1, count1)) (enumerate 0 cs) st)"
  by (rule fold_inv [where P = "pass_inv (limits_of cs) safe mine"])
     (use assms in \<open>auto intro!: inner_step_inv dest: in_enumerate_limits\<close>)

lemma inner_fold_prog:
  assumes "pass_prog (limits_of cs) st" "limits1 \<subseteq> limits_of cs"
  shows "pass_prog (limits_of cs) (fold (inner_step i (limits1, count1)) (enumerate 0 cs) st)"
  by (rule fold_inv [where P = "pass_prog (limits_of cs)"])
     (use assms in \<open>auto intro!: inner_step_prog dest: in_enumerate_limits\<close>)

lemma pass_inv_added: "pass_inv C safe mine (st\<lparr>added := b\<rparr>) = pass_inv C safe mine st"
  by (simp add: pass_inv_def)

lemma pass_prog_added: "pass_prog C (st\<lparr>added := b\<rparr>) = pass_prog C st"
  by (simp add: pass_prog_def)

lemma resolve_single_inv:
  "pass_inv C safe mine st \<Longrightarrow> limits1 \<subseteq> C \<Longrightarrow>
   pass_inv C safe mine (resolve_single limits1 count1 st)"
  by (auto simp: pass_inv_def resolve_single_def degenerate_def)

lemma resolve_single_prog:
  assumes "pass_prog C st" "limits1 \<subseteq> C" "\<not> degenerate (limits1, count1)"
  shows "pass_prog C (resolve_single limits1 count1 st)"
proof -
  have ne: "limits1 \<noteq> {}" if "count1 = 0 \<or> count1 = int (card limits1)"
    using that assms(3) by (auto simp: degenerate_def)
  show ?thesis
  proof (cases "count1 = 0 \<or> count1 = int (card limits1)")
    case True
    with ne assms(2) have "(A \<union> limits1 \<union> B) \<inter> C \<noteq> {}" for A B by blast
    then show ?thesis
      using True by (auto simp: pass_prog_def resolve_single_def)
  next
    case False
    with assms(1) show ?thesis by (simp add: pass_prog_def resolve_single_def)
  qed
qed

lemma outer_step_inv:
  assumes "pass_inv (limits_of cs) safe mine st" "ic \<in> set (enumerate 0 cs)"
  shows "pass_inv (limits_of cs) safe mine (outer_step cs ic st)"
proof -
  have sub: "fst (snd ic) \<subseteq> limits_of cs" using assms(2) by (rule in_enumerate_limits)
  have "pass_inv (limits_of cs) safe mine
          (fold (inner_step (fst ic) (fst (snd ic), snd (snd ic))) (enumerate 0 cs) (st\<lparr>added := False\<rparr>))"
    by (rule inner_fold_inv) (simp_all add: pass_inv_added assms sub)
  then show ?thesis
    using assms(1) sub by (simp add: outer_step_def Let_def resolve_single_inv)
qed

lemma outer_step_prog:
  assumes "pass_prog (limits_of cs) st" "ic \<in> set (enumerate 0 cs)" "\<not> degenerate (snd ic)"
  shows "pass_prog (limits_of cs) (outer_step cs ic st)"
proof -
  have sub: "fst (snd ic) \<subseteq> limits_of cs" using assms(2) by (rule in_enumerate_limits)
  have "pass_prog (limits_of cs)
          (fold (inner_step (fst ic) (fst (snd ic), snd (snd ic))) (enumerate 0 cs) (st\<lparr>added := False\<rparr>))"
    by (rule inner_fold_prog) (simp_all add: pass_prog_added assms sub)
  then show ?thesis
    using assms(1,3) sub by (simp add: outer_step_def Let_def resolve_single_prog)
qed

lemma csp_pass_inv: "pass_inv (limits_of cs) safe mine (csp_pass cs safe mine)"
  unfolding csp_pass_def
proof (rule fold_inv [where P = "pass_inv (limits_of cs) safe mine"])
  show "pass_inv (limits_of cs) safe mine
     \<lparr>new_constraints = [], processed = {}, safe_cells = safe, mine_cells = mine,
        flag = False, added = False\<rparr>"
    by (simp add: pass_inv_def)
qed (rule outer_step_inv)

lemma csp_pass_prog:
  assumes "\<forall>c \<in> set cs. \<not> degenerate c"
  shows "pass_prog (limits_of cs) (csp_pass cs safe mine)"
  unfolding csp_pass_def
proof (rule fold_inv [where P = "pass_prog (limits_of cs)"])
  show "pass_prog (limits_of cs)
     \<lparr>new_constraints = [], processed = {}, safe_cells = safe, mine_cells = mine,
        flag = False, added = False\<rparr>"
    by (simp add: pass_prog_def)
next
  fix ic st assume "ic \<in> set (enumerate 0 cs)" "pass_prog (limits_of cs) st"
  then show "pass_prog (limits_of cs) (outer_step cs ic st)"
    using assms by (intro outer_step_prog) (auto dest: in_enumerate_snd)
qed


definition fresh ::
  "int \<Rightarrow> int \<Rightarrow> coord set \<Rightarrow> coord set \<Rightarrow> constraint list \<Rightarrow> coord set \<Rightarrow> coord set \<Rightarrow> bool" where
  "fresh rows cols ks km cs safe mine \<longleftrightarrow>
     (\<forall>c \<in> set cs. fst c \<noteq> {} \<and> fst c \<subseteq> grid rows cols - (ks \<union> km \<union> safe \<union> mine))"

definition csp_left :: "int \<Rightarrow> int \<Rightarrow> coord set \<Rightarrow> coord set \<Rightarrow> coord set \<Rightarrow> coord set \<Rightarrow> nat" where
  "csp_left rows cols ks km safe mine = card (grid rows cols - (ks \<union> km \<union> safe \<union> mine))"

definition csp_level ::
  "int \<Rightarrow> int \<Rightarrow> coord set \<Rightarrow> coord set \<Rightarrow> constraint list \<Rightarrow> coord set \<Rightarrow> coord set \<Rightarrow> nat" where
  "csp_level rows cols ks km cs safe mine =
     (if fresh rows cols ks km cs safe mine then 0
      else if \<forall>c \<in> set cs. \<not> degenerate c then 1 else 2)"

lemma fresh_scan:
  "fresh rows cols ks km (constraints_scan board rows cols (ks \<union> safe) (km \<union> mine)) safe mine"
  unfolding fresh_def
proof
  fix c assume "c \<in> set (constraints_scan board rows cols (ks \<union> safe) (km \<union> mine))"
  from constraints_scan_limits [OF this] open_cells_fresh [of board rows cols "ks \<union> safe" "km \<union> mine"]
  show "fst c \<noteq> {} \<and> fst c \<subseteq> grid rows cols - (ks \<union> km \<union> safe \<union> mine)"
    by blast
qed

lemma fresh_not_degenerate: "fresh rows cols ks km cs safe mine \<Longrightarrow> \<forall>c \<in> set cs. \<not> degenerate c"
  by (auto simp: fresh_def degenerate_def)

lemma fresh_limits:
  "fresh rows cols ks km cs safe mine \<Longrightarrow> limits_of cs \<subseteq> grid rows cols - (ks \<union> km \<union> safe \<union> mine)"
  by (auto simp: fresh_def limits_of_def)

lemma csp_left_mono:
  assumes "safe \<subseteq> safe'" "mine \<subseteq> mine'"
  shows "csp_left rows cols ks km safe' mine' \<le> csp_left rows cols ks km safe mine"
  unfolding csp_left_def
  by (rule card_mono) (use assms in \<open>auto simp: finite_grid\<close>)

lemma csp_left_less:
  assumes "safe \<subseteq> safe'" "mine \<subseteq> mine'"
    and "x \<in> safe' \<union> mine'" "x \<in> grid rows cols - (ks \<union> km \<union> safe \<union> mine)"
  shows "csp_left rows cols ks km safe' mine' < csp_left rows cols ks km safe mine"
  unfolding csp_left_def
  by (rule psubset_card_mono) (use assms in \<open>auto simp: finite_grid\<close>)

lemma csp_pass_decreases:
  assumes "flag (csp_pass cs safe mine)"
  defines "st \<equiv> csp_pass cs safe mine"
  shows "csp_left rows cols ks km (safe_cells st) (mine_cells st) < csp_left rows cols ks km safe mine \<or>
         csp_left rows cols ks km (safe_cells st) (mine_cells st) = csp_left rows cols ks km safe mine \<and>
         csp_level rows cols ks km (next_constraints board rows cols ks km st) (safe_cells st) (mine_cells st)
           < csp_level rows cols ks km cs safe mine"
proof -
  have inv: "pass_inv (limits_of cs) safe mine st"
    unfolding st_def by (rule csp_pass_inv)
  then have mono: "safe \<subseteq> safe_cells st" "mine \<subseteq> mine_cells st"
    by (simp_all add: pass_inv_def)
  have le: "csp_left rows cols ks km (safe_cells st) (mine_cells st) \<le> csp_left rows cols ks km safe mine"
    using mono by (rule csp_left_mono)
  have fl: "flag st" using assms(1) by (simp add: st_def)
  show ?thesis
  proof (cases "fresh rows cols ks km cs safe mine")
    case True
    then have "pass_prog (limits_of cs) st"
      unfolding st_def by (intro csp_pass_prog fresh_not_degenerate)
    with fl obtain x where "x \<in> safe_cells st \<union> mine_cells st" "x \<in> limits_of cs"
      by (auto simp: pass_prog_def)
    with fresh_limits [OF True] mono show ?thesis
      by (intro disjI1 csp_left_less [where x = x]) auto
  next
    case False
    show ?thesis
    proof (cases "\<forall>c \<in> set cs. \<not> degenerate c")
      case True
      then have "pass_prog (limits_of cs) st"
        unfolding st_def by (rule csp_pass_prog)
      with fl have "safe_cells st \<noteq> {} \<or> mine_cells st \<noteq> {}"
        by (auto simp: pass_prog_def)
      with fl have "fresh rows cols ks km (next_constraints board rows cols ks km st) (safe_cells st) (mine_cells st)"
        by (simp add: next_constraints_def fresh_scan)
      with False True le show ?thesis
        by (auto simp: csp_level_def)
    next
      case deg: False
      have "fresh rows cols ks km (next_constraints board rows cols ks km st) (safe_cells st) (mine_cells st)
            \<or> (\<forall>c \<in> set (next_constraints board rows cols ks km st). \<not> degenerate c)"
        using inv by (auto simp: next_constraints_def fresh_scan pass_inv_def)
      with False deg le show ?thesis
        by (auto simp: csp_level_def)
    qed
  qed
qed

function csp_loop ::
  "board \<Rightarrow> int \<Rightarrow> int \<Rightarrow> coord set \<Rightarrow> coord set \<Rightarrow> constraint list \<Rightarrow> coord set \<Rightarrow> coord set \<Rightarrow>
     coord set \<times> coord set" where
  "csp_loop board rows cols known_safe known_mines constraints safe mine =
     (let st = csp_pass constraints safe mine
      in if flag st
         then csp_loop board rows cols known_safe known_mines
                (next_constraints board rows cols known_safe known_mines st)
                (safe_cells st) (mine_cells st)
         else (safe_cells st, mine_cells st))"
  by pat_completeness auto

lemma csp_loop_total: "All csp_loop_dom"
  apply (relation "measures
     [\<lambda>(board, rows, cols, ks, km, cs, safe, mine). csp_left rows cols ks km safe mine,
      \<lambda>(board, rows, cols, ks, km, cs, safe, mine). csp_level rows cols ks km cs safe mine]")
   apply simp
  subgoal for board rows cols ks km cs safe mine st
    using csp_pass_decreases [of cs safe mine rows cols ks km board] by auto
  done

termination csp_loop
  by (rule csp_loop_total)

declare csp_loop.simps [simp del]




definition apply_csp_solver ::
  "board \<Rightarrow> int \<Rightarrow> int \<Rightarrow> coord set \<Rightarrow> coord set \<Rightarrow> error + coord set \<times> coord set" where
  "apply_csp_solver board rows cols known_safe known_mines =
     (case generate_constraints board rows cols known_safe known_mines of
        Inl e \<Rightarrow> Inl e
      | Inr constraints \<Rightarrow>
          if constraints = [] then Inr ({}, {})
          else Inr (csp_loop board rows cols known_safe known_mines constraints {} {}))"

section \<open>Solver.solve_step\<close>

definition solve_step :: "board \<Rightarrow> error + coord set \<times> coord set" where
  "solve_step board =
     (let rows = board_rows board; cols = board_cols board
      in case basic_loop board rows cols {} {} of
           Inl e \<Rightarrow> Inl e
         | Inr found \<Rightarrow>
             (case apply_csp_solver board rows cols (fst found) (snd found) of
                Inl e \<Rightarrow> Inl e
              | Inr csp \<Rightarrow> Inr (fst found \<union> fst csp, snd found \<union> snd csp)))"


section \<open>Boards used as examples\<close>

text \<open>\<open>Cell()\<close>, a hidden cell, and a revealed cell that shows the number \<open>k\<close>.\<close>

definition hidden_cell :: Cell where
  "hidden_cell = \<lparr>is_mine = False, is_revealed = False, is_flagged = False, adjacent_mines = 0\<rparr>"

definition number_cell :: "int \<Rightarrow> Cell" where
  "number_cell k = \<lparr>is_mine = False, is_revealed = True, is_flagged = False, adjacent_mines = k\<rparr>"

text \<open>A hidden cell that holds a mine.\<close>

definition mine_cell :: Cell where
  "mine_cell = \<lparr>is_mine = True, is_revealed = False, is_flagged = False, adjacent_mines = 0\<rparr>"

text \<open>Three hidden cells above the numbers 1 2 1: the mines are at the two ends.\<close>

definition board_121 :: board where
  "board_121 = [[hidden_cell, hidden_cell, hidden_cell],
                [number_cell 1, number_cell 2, number_cell 1]]"

lemma solve_step_board_121: "solve_step board_121 = Inr ({(0, 1)}, {(0, 0), (0, 2)})"
  by code_simp

section \<open>The cells that the solver returns\<close>


lemma open_cells_mono: "open_cells board rows cols ks km \<subseteq> open_cells board rows cols {} {}"
  by (auto simp: open_cells_def unknown_def)

lemma basic_loop_bound:
  "basic_loop board rows cols safe mine = Inr res \<Longrightarrow>
   safe \<union> mine \<subseteq> open_cells board rows cols {} {} \<Longrightarrow>
   fst res \<union> snd res \<subseteq> open_cells board rows cols {} {}"
proof (induction board rows cols safe mine rule: basic_loop.induct)
  case (1 board rows cols safe mine)
  have unf: "(case apply_basic_rules board rows cols safe mine of
        Inl e \<Rightarrow> Inl e
      | Inr new \<Rightarrow>
          if fst new \<noteq> {} \<or> snd new \<noteq> {}
          then basic_loop board rows cols (safe \<union> fst new) (mine \<union> snd new)
          else Inr (safe, mine)) = Inr res"
    using "1.prems"(1) by (subst (asm) basic_loop.simps)
  then obtain new where new: "apply_basic_rules board rows cols safe mine = Inr new"
    by (cases "apply_basic_rules board rows cols safe mine") auto
  then have scan: "new = basic_scan board rows cols safe mine"
    by (auto simp: apply_basic_rules_def split: if_splits)
  have nb: "fst new \<union> snd new \<subseteq> open_cells board rows cols {} {}"
    using basic_scan_bound [of board rows cols safe mine] open_cells_mono [of board rows cols safe mine]
    unfolding scan by blast
  show ?case
  proof (cases "fst new \<noteq> {} \<or> snd new \<noteq> {}")
    case True
    with unf new
    have "basic_loop board rows cols (safe \<union> fst new) (mine \<union> snd new) = Inr res" by simp
    moreover have "(safe \<union> fst new) \<union> (mine \<union> snd new) \<subseteq> open_cells board rows cols {} {}"
      using "1.prems"(2) nb by blast
    ultimately show ?thesis
      using "1.IH" [OF new True] by blast
  next
    case False
    with unf "1.prems"(2) new show ?thesis by auto
  qed
qed

lemma next_constraints_limits:
  assumes "pass_inv (limits_of cs) safe mine st" "limits_of cs \<subseteq> open_cells board rows cols {} {}"
  shows "limits_of (next_constraints board rows cols ks km st) \<subseteq> open_cells board rows cols {} {}"
proof -
  have "limits_of (constraints_scan board rows cols A B) \<subseteq> open_cells board rows cols {} {}" for A B
    using constraints_scan_limits [of _ board rows cols A B] open_cells_mono [of board rows cols A B]
    by (fastforce simp: limits_of_def)
  moreover have "limits_of (new_constraints st) \<subseteq> open_cells board rows cols {} {}"
    using assms by (fastforce simp: limits_of_def pass_inv_def)
  ultimately show ?thesis by (simp add: next_constraints_def)
qed

lemma csp_loop_bound:
  "limits_of cs \<subseteq> open_cells board rows cols {} {} \<Longrightarrow>
   safe \<union> mine \<subseteq> open_cells board rows cols {} {} \<Longrightarrow>
   fst (csp_loop board rows cols ks km cs safe mine) \<union>
   snd (csp_loop board rows cols ks km cs safe mine) \<subseteq> open_cells board rows cols {} {}"
proof (induction board rows cols ks km cs safe mine rule: csp_loop.induct)
  case (1 board rows cols ks km cs safe mine)
  define st where "st = csp_pass cs safe mine"
  have inv: "pass_inv (limits_of cs) safe mine st"
    unfolding st_def by (rule csp_pass_inv)
  with "1.prems" have acc: "safe_cells st \<union> mine_cells st \<subseteq> open_cells board rows cols {} {}"
    unfolding pass_inv_def by blast
  have unf: "csp_loop board rows cols ks km cs safe mine =
     (if flag st
      then csp_loop board rows cols ks km (next_constraints board rows cols ks km st)
             (safe_cells st) (mine_cells st)
      else (safe_cells st, mine_cells st))"
    by (subst csp_loop.simps) (simp add: st_def Let_def)
  show ?case
  proof (cases "flag st")
    case True
    have "fst (csp_loop board rows cols ks km (next_constraints board rows cols ks km st)
                (safe_cells st) (mine_cells st)) \<union>
          snd (csp_loop board rows cols ks km (next_constraints board rows cols ks km st)
                (safe_cells st) (mine_cells st)) \<subseteq> open_cells board rows cols {} {}"
      using "1.IH" [OF st_def True next_constraints_limits [OF inv "1.prems"(1)] acc] .
    then show ?thesis
      using True by (simp add: unf)
  next
    case False
    with acc show ?thesis
      by (simp add: unf)
  qed
qed

lemma apply_csp_solver_bound:
  assumes "apply_csp_solver board rows cols ks km = Inr res"
  shows "fst res \<union> snd res \<subseteq> open_cells board rows cols {} {}"
proof -
  let ?cs = "constraints_scan board rows cols ks km"
  have lim: "limits_of ?cs \<subseteq> open_cells board rows cols {} {}"
    using constraints_scan_limits [of _ board rows cols ks km] open_cells_mono [of board rows cols ks km]
    by (fastforce simp: limits_of_def)
  from assms have "res = ({}, {}) \<or> res = csp_loop board rows cols ks km ?cs {} {}"
    by (auto simp: apply_csp_solver_def generate_constraints_def split: if_splits)
  then show ?thesis
    using csp_loop_bound [OF lim, of "{}" "{}" ks km] by auto
qed

lemma solve_step_covers: "solve_step board = Inr res \<Longrightarrow> covers board (board_rows board) (board_cols board)"
  by (auto simp: solve_step_def Let_def apply_csp_solver_def generate_constraints_def
      split: sum.splits if_splits)

text \<open>
  Claim C10. When \<open>solve_step\<close> returns, every coordinate of the safe set and of the mine
  set is inside the board (row below \<open>len(board)\<close>, column below \<open>len(board[0])\<close>, and the
  cell exists), and the cell there is neither revealed nor flagged in the board given.
\<close>

theorem solve_step_cells_unresolved:
  assumes "solve_step board = Inr (safe, mines)" and "p \<in> safe \<union> mines"
  shows "0 \<le> fst p \<and> fst p < board_rows board \<and> 0 \<le> snd p \<and> snd p < board_cols board \<and>
         nat (fst p) < length board \<and> nat (snd p) < length (board ! nat (fst p)) \<and>
         \<not> is_revealed (cell_at board p) \<and> \<not> is_flagged (cell_at board p)"
proof -
  let ?H = "open_cells board (board_rows board) (board_cols board) {} {}"
  from assms(1) obtain found csp where
    found: "basic_loop board (board_rows board) (board_cols board) {} {} = Inr found" and
    csp: "apply_csp_solver board (board_rows board) (board_cols board) (fst found) (snd found) = Inr csp" and
    res: "safe = fst found \<union> fst csp" "mines = snd found \<union> snd csp"
    by (auto simp: solve_step_def Let_def split: sum.splits)
  have "fst found \<union> snd found \<subseteq> ?H"
    using basic_loop_bound [OF found] by simp
  moreover have "fst csp \<union> snd csp \<subseteq> ?H"
    using apply_csp_solver_bound [OF csp] .
  ultimately have "p \<in> ?H" using assms(2) res by blast
  then have g: "p \<in> grid (board_rows board) (board_cols board)"
    and u: "\<not> is_revealed (cell_at board p)" "\<not> is_flagged (cell_at board p)"
    by (auto simp: open_cells_def unknown_def)
  from solve_step_covers [OF assms(1)] g
  have "nat (fst p) < length board \<and> nat (snd p) < length (board ! nat (fst p))"
    by (auto simp: covers_def list_all_iff grid_def)
  with g u show ?thesis by (simp add: grid_iff)
qed


theorem solve_step_cells_unresolved_witness:
  "solve_step board_121 = Inr ({(0, 1)}, {(0, 0), (0, 2)}) \<and>
   (0, 2) \<in> {(0, 1)} \<union> {(0, 0), (0, 2)} \<and>
   \<not> is_revealed (cell_at board_121 (0, 2)) \<and> \<not> is_flagged (cell_at board_121 (0, 2)) \<and>
   (2::int) < board_cols board_121"
  using solve_step_cells_unresolved [OF solve_step_board_121, of "(0, 2)"] solve_step_board_121
  by simp


section \<open>Termination of subset elimination\<close>


lemma card_grid: "card (grid rows cols) = nat rows * nat cols"
proof -
  have "distinct (scan rows cols)"
    by (simp add: scan_def distinct_product)
  then have "card (grid rows cols) = length (scan rows cols)"
    by (simp add: grid_def distinct_card)
  then show ?thesis by (simp add: scan_def)
qed

lemma csp_left_bound: "csp_left rows cols ks km safe mine \<le> nat rows * nat cols"
proof -
  have "csp_left rows cols ks km safe mine \<le> card (grid rows cols)"
    unfolding csp_left_def by (rule card_mono) (auto simp: finite_grid)
  then show ?thesis by (simp add: card_grid)
qed

lemma csp_pass_fresh:
  assumes "fresh rows cols ks km cs safe mine" "flag (csp_pass cs safe mine)"
  shows "\<exists>x \<in> grid rows cols. x \<in> safe_cells (csp_pass cs safe mine) \<union> mine_cells (csp_pass cs safe mine)
           \<and> x \<notin> ks \<union> km \<union> safe \<union> mine"
proof -
  have "pass_prog (limits_of cs) (csp_pass cs safe mine)"
    using assms(1) by (intro csp_pass_prog fresh_not_degenerate)
  with assms(2) obtain x where "x \<in> safe_cells (csp_pass cs safe mine) \<union> mine_cells (csp_pass cs safe mine)"
    "x \<in> limits_of cs"
    by (auto simp: pass_prog_def)
  with fresh_limits [OF assms(1)] show ?thesis by blast
qed

lemma csp_loop_halts:
  "\<not> flag (csp_pass cs safe mine) \<Longrightarrow> csp_loop board rows cols ks km cs safe mine = (safe, mine)"
  using csp_pass_inv [of cs safe mine]
  by (subst csp_loop.simps) (simp add: Let_def pass_inv_def)

text \<open>
  Claim C5. The \<open>while flag\<close> loop of \<open>_apply_csp_solver\<close> terminates from every state
  (\<open>csp_loop_dom\<close> is the domain of the recursion that models the loop: the arguments
  from which it returns), for every board and every pair of known sets. Every pass that
  starts from constraints generated for the cells proved so far, as the first pass and
  every pass after a regeneration do, either sets \<open>flag\<close>, and then has proved a cell of the
  grid that was in none of the four sets, so that the number of grid cells left, at most
  \<open>rows * cols\<close>, has gone down and the constraints are generated afresh; or leaves
  \<open>flag\<close> unset, and then has changed neither set and the loop returns them.
\<close>

theorem csp_loop_terminates:
  "csp_loop_dom (board, rows, cols, known_safe, known_mines, constraints, safe, mine) \<and>
   (let cs = constraints_scan board rows cols (known_safe \<union> safe) (known_mines \<union> mine);
        st = csp_pass cs safe mine
    in (flag st \<longrightarrow>
          (\<exists>x \<in> grid rows cols. x \<in> safe_cells st \<union> mine_cells st \<and>
                                   x \<notin> known_safe \<union> known_mines \<union> safe \<union> mine) \<and>
          csp_left rows cols known_safe known_mines (safe_cells st) (mine_cells st)
            < csp_left rows cols known_safe known_mines safe mine \<and>
          next_constraints board rows cols known_safe known_mines st =
            constraints_scan board rows cols (known_safe \<union> safe_cells st)
              (known_mines \<union> mine_cells st)) \<and>
       (\<not> flag st \<longrightarrow>
          safe_cells st = safe \<and> mine_cells st = mine \<and>
          csp_loop board rows cols known_safe known_mines cs safe mine = (safe, mine))) \<and>
   csp_left rows cols known_safe known_mines safe mine \<le> nat rows * nat cols"
proof -
  define cs where "cs = constraints_scan board rows cols (known_safe \<union> safe) (known_mines \<union> mine)"
  define st where "st = csp_pass cs safe mine"
  have fr: "fresh rows cols known_safe known_mines cs safe mine"
    unfolding cs_def by (rule fresh_scan)
  have inv: "pass_inv (limits_of cs) safe mine st"
    unfolding st_def by (rule csp_pass_inv)
  have 1: "csp_loop_dom (board, rows, cols, known_safe, known_mines, constraints, safe, mine)"
    using csp_loop_total by blast
  have 2: "\<exists>x \<in> grid rows cols. x \<in> safe_cells st \<union> mine_cells st \<and>
             x \<notin> known_safe \<union> known_mines \<union> safe \<union> mine" if "flag st"
    using csp_pass_fresh [OF fr] that unfolding st_def by blast
  have 3: "csp_left rows cols known_safe known_mines (safe_cells st) (mine_cells st)
            < csp_left rows cols known_safe known_mines safe mine" if "flag st"
  proof -
    from 2 [OF that] obtain x where "x \<in> grid rows cols" "x \<in> safe_cells st \<union> mine_cells st"
      "x \<notin> known_safe \<union> known_mines \<union> safe \<union> mine" by blast
    with inv show ?thesis
      by (intro csp_left_less [where x = x]) (auto simp: pass_inv_def)
  qed
  have 4: "next_constraints board rows cols known_safe known_mines st =
            constraints_scan board rows cols (known_safe \<union> safe_cells st)
              (known_mines \<union> mine_cells st)" if "flag st"
    using 2 [OF that] that by (auto simp: next_constraints_def)
  have 5: "safe_cells st = safe \<and> mine_cells st = mine \<and>
          csp_loop board rows cols known_safe known_mines cs safe mine = (safe, mine)" if "\<not> flag st"
    using inv that csp_loop_halts [of cs safe mine] by (simp add: pass_inv_def st_def)
  show ?thesis
    using 1 2 3 4 5 csp_left_bound
    unfolding Let_def cs_def [symmetric] st_def [symmetric] by blast
qed


theorem csp_loop_terminates_witness:
  "flag (csp_pass (constraints_scan board_121 2 3 {} {}) {} {}) \<and>
   csp_left 2 3 {} {} {} {(0, 2)} < csp_left 2 3 {} {} {} {} \<and>
   csp_left 2 3 {} {} {} {} \<le> 6"
proof -
  have st: "csp_pass (constraints_scan board_121 2 3 {} {}) {} {} =
     \<lparr>new_constraints = [({(0, 0), (0, 1)}, 1), ({(0, 1), (0, 2)}, 1)], processed = {1},
      safe_cells = {}, mine_cells = {(0, 2)}, flag = True, added = False\<rparr>"
    by code_simp
  show ?thesis
    using csp_loop_terminates [of board_121 2 3 "{}" "{}" "[]" "{}" "{}"]
    by (simp add: st)
qed


section \<open>Soundness of the deterministic rules\<close>


text \<open>
  A mine arrangement \<open>M\<close> is the set of the cells that hold a mine. It meets the counts of
  the board when the number shown by every revealed cell that is not itself a mine is the
  number of mines among the neighbours of the cell.
\<close>

definition counts_met :: "board \<Rightarrow> coord set \<Rightarrow> bool" where
  "counts_met board M =
     (let rows = board_rows board; cols = board_cols board
      in list_all
           (\<lambda>p. let cell = cell_at board p
                in is_revealed cell \<and> \<not> is_mine cell \<longrightarrow>
                     adjacent_mines cell =
                       int (length (filter (\<lambda>n. n \<in> M) (neighbours rows cols p))))
           (scan rows cols))"

text \<open>
  The solver reads two more things from the board: it counts every flag as a mine, and it
  looks for mines among the cells that are not revealed only. An arrangement agrees with
  that when every flagged cell holds a mine and no revealed cell does.
\<close>

definition flags_are_mines :: "board \<Rightarrow> coord set \<Rightarrow> bool" where
  "flags_are_mines board M =
     list_all (\<lambda>p. is_flagged (cell_at board p) \<longrightarrow> p \<in> M)
       (scan (board_rows board) (board_cols board))"

definition revealed_are_clear :: "board \<Rightarrow> coord set \<Rightarrow> bool" where
  "revealed_are_clear board M =
     list_all (\<lambda>p. is_revealed (cell_at board p) \<longrightarrow> p \<notin> M)
       (scan (board_rows board) (board_cols board))"

text \<open>The three conditions together.\<close>

definition consistent :: "board \<Rightarrow> coord set \<Rightarrow> bool" where
  "consistent board M \<longleftrightarrow>
     counts_met board M \<and> flags_are_mines board M \<and> revealed_are_clear board M"

text \<open>The cells of the board that hold a mine.\<close>

definition mines_of_board :: "board \<Rightarrow> coord set" where
  "mines_of_board board =
     set (filter (\<lambda>p. is_mine (cell_at board p)) (scan (board_rows board) (board_cols board)))"

text \<open>A constraint holds in an arrangement; the two found sets are right in it.\<close>

definition holds :: "coord set \<Rightarrow> constraint \<Rightarrow> bool" where
  "holds M c \<longleftrightarrow> finite (fst c) \<and> int (card (fst c \<inter> M)) = snd c"

definition sound :: "coord set \<Rightarrow> coord set \<Rightarrow> coord set \<Rightarrow> bool" where
  "sound M safe mine \<longleftrightarrow> safe \<inter> M = {} \<and> mine \<subseteq> M"

lemma count_split:
  assumes "\<forall>n \<in> set ns. (A n \<longrightarrow> n \<in> M \<and> \<not> U n) \<and> (\<not> A n \<and> \<not> U n \<longrightarrow> n \<notin> M)"
  shows "length (filter (\<lambda>n. n \<in> M) ns) =
         length (filter A ns) + length (filter (\<lambda>n. U n \<and> n \<in> M) ns)"
  using assms by (induction ns) auto

lemma filter_all:
  "length (filter (\<lambda>n. U n \<and> Q n) ns) = length (filter U ns) \<Longrightarrow> n \<in> set ns \<Longrightarrow> U n \<Longrightarrow> Q n"
proof (induction ns)
  case Nil then show ?case by simp
next
  case (Cons a ns)
  have le: "length (filter (\<lambda>n. U n \<and> Q n) ns) \<le> length (filter U ns)"
    by (induction ns) auto
  from Cons show ?case
    using le by (auto split: if_splits)
qed

lemma filter_none:
  "length (filter (\<lambda>n. U n \<and> Q n) ns) = 0 \<Longrightarrow> n \<in> set ns \<Longrightarrow> U n \<Longrightarrow> \<not> Q n"
  by (auto simp: filter_empty_conv)

lemma consistent_cell:
  assumes "consistent board M" "p \<in> grid (board_rows board) (board_cols board)"
  shows "is_flagged (cell_at board p) \<Longrightarrow> p \<in> M"
    and "is_revealed (cell_at board p) \<Longrightarrow> p \<notin> M"
    and "is_revealed (cell_at board p) \<Longrightarrow> \<not> is_mine (cell_at board p) \<Longrightarrow>
         adjacent_mines (cell_at board p) =
           int (length (filter (\<lambda>n. n \<in> M) (neighbours (board_rows board) (board_cols board) p)))"
  using assms
  by (auto simp: consistent_def counts_met_def flags_are_mines_def revealed_are_clear_def
      Let_def list_all_iff grid_def)

text \<open>The count of a revealed cell, split the way each neighbour loop splits it.\<close>

lemma basic_count:
  assumes "consistent board M" "sound M ks km" "p \<in> grid (board_rows board) (board_cols board)"
    "is_revealed (cell_at board p)" "\<not> is_mine (cell_at board p)"
  defines "ns \<equiv> neighbours (board_rows board) (board_cols board) p"
  shows "adjacent_mines (cell_at board p) =
           int (length (filter (\<lambda>n. \<not> is_revealed (cell_at board n) \<and> known_mine board km n) ns)) +
           int (length (filter (\<lambda>n. unknown board ks km n \<and> n \<in> M) ns))"
proof -
  have "\<forall>n \<in> set ns.
          (\<not> is_revealed (cell_at board n) \<and> known_mine board km n \<longrightarrow> n \<in> M \<and> \<not> unknown board ks km n) \<and>
          (\<not> (\<not> is_revealed (cell_at board n) \<and> known_mine board km n) \<and> \<not> unknown board ks km n \<longrightarrow> n \<notin> M)"
    using consistent_cell(1,2) [OF assms(1)] assms(2) neighbours_grid
    unfolding ns_def known_mine_def unknown_def sound_def by blast
  from count_split [OF this] consistent_cell(3) [OF assms(1,3,4,5)]
  show ?thesis by (simp add: ns_def)
qed

lemma generator_count:
  assumes "consistent board M" "sound M ks km" "p \<in> grid (board_rows board) (board_cols board)"
    "is_revealed (cell_at board p)" "\<not> is_mine (cell_at board p)"
  defines "ns \<equiv> neighbours (board_rows board) (board_cols board) p"
  shows "adjacent_mines (cell_at board p) =
           int (length (filter (known_mine board km) ns)) +
           int (length (filter (\<lambda>n. unknown board ks km n \<and> n \<in> M) ns))"
proof -
  have "\<forall>n \<in> set ns.
          (known_mine board km n \<longrightarrow> n \<in> M \<and> \<not> unknown board ks km n) \<and>
          (\<not> known_mine board km n \<and> \<not> unknown board ks km n \<longrightarrow> n \<notin> M)"
    using consistent_cell(1,2) [OF assms(1)] assms(2) neighbours_grid
    unfolding ns_def known_mine_def unknown_def sound_def by blast
  from count_split [OF this] consistent_cell(3) [OF assms(1,3,4,5)]
  show ?thesis by (simp add: ns_def)
qed

lemma basic_cell_sound:
  assumes "consistent board M" "sound M ks km" "p \<in> grid (board_rows board) (board_cols board)"
    "sound M (fst found) (snd found)"
  shows "sound M (fst (basic_cell board (board_rows board) (board_cols board) ks km p found))
                 (snd (basic_cell board (board_rows board) (board_cols board) ks km p found))"
proof (cases "is_revealed (cell_at board p) \<and> \<not> is_mine (cell_at board p)")
  case False
  with assms(4) show ?thesis by (auto simp: basic_cell_def Let_def)
next
  case True
  let ?ns = "neighbours (board_rows board) (board_cols board) p"
  let ?F = "int (length (filter (\<lambda>n. \<not> is_revealed (cell_at board n) \<and> known_mine board km n) ?ns))"
  have cnt: "adjacent_mines (cell_at board p) =
      ?F + int (length (filter (\<lambda>n. unknown board ks km n \<and> n \<in> M) ?ns))"
    using basic_count [OF assms(1,2,3)] True by simp
  have all: "n \<in> M" if "adjacent_mines (cell_at board p) = ?F + int (length (filter (unknown board ks km) ?ns))"
    "n \<in> set ?ns" "unknown board ks km n" for n
    using filter_all [of "unknown board ks km" "\<lambda>n. n \<in> M" ?ns n] that cnt by simp
  have none: "n \<notin> M" if "adjacent_mines (cell_at board p) = ?F"
    "n \<in> set ?ns" "unknown board ks km n" for n
    using filter_none [of "unknown board ks km" "\<lambda>n. n \<in> M" ?ns n] that cnt by simp
  show ?thesis
    using True assms(4) all none
    by (auto simp: basic_cell_def Let_def fold_count sound_def)
qed

lemma basic_scan_sound:
  assumes "consistent board M" "sound M ks km"
  shows "sound M (fst (basic_scan board (board_rows board) (board_cols board) ks km))
                 (snd (basic_scan board (board_rows board) (board_cols board) ks km))"
  unfolding basic_scan_def
proof (rule fold_inv [where P = "\<lambda>found. sound M (fst found) (snd found)"])
  show "sound M (fst ({}, {})) (snd ({}, {}))" by (simp add: sound_def)
next
  fix p found
  assume "p \<in> set (scan (board_rows board) (board_cols board))" "sound M (fst found) (snd found)"
  then show "sound M (fst (basic_cell board (board_rows board) (board_cols board) ks km p found))
                 (snd (basic_cell board (board_rows board) (board_cols board) ks km p found))"
    using assms by (intro basic_cell_sound) (simp_all add: grid_def)
qed


lemma holds_scan:
  assumes "consistent board M" "sound M ks km"
    "c \<in> set (constraints_scan board (board_rows board) (board_cols board) ks km)"
  shows "holds M c"
proof -
  let ?rows = "board_rows board" and ?cols = "board_cols board"
  from assms(3) obtain p where p: "p \<in> set (scan ?rows ?cols)"
    "c \<in> set (cell_constraints board ?rows ?cols ks km p)"
    by (auto simp: constraints_scan_def)
  let ?ns = "neighbours ?rows ?cols p"
  from p(2) cell_constraints_cases [of board ?rows ?cols ks km p]
  have c: "c = ({n \<in> set ?ns. unknown board ks km n},
                adjacent_mines (cell_at board p) - int (length (filter (known_mine board km) ?ns)))"
    and rev: "is_revealed (cell_at board p)" "\<not> is_mine (cell_at board p)"
    by auto
  have "{n \<in> set ?ns. unknown board ks km n} \<inter> M = set (filter (\<lambda>n. unknown board ks km n \<and> n \<in> M) ?ns)"
    by auto
  moreover have "card (set (filter (\<lambda>n. unknown board ks km n \<and> n \<in> M) ?ns)) =
             length (filter (\<lambda>n. unknown board ks km n \<and> n \<in> M) ?ns)"
    by (rule distinct_card) (simp add: distinct_neighbours)
  ultimately have "card ({n \<in> set ?ns. unknown board ks km n} \<inter> M) =
             length (filter (\<lambda>n. unknown board ks km n \<and> n \<in> M) ?ns)"
    by (simp only:)
  with generator_count [OF assms(1,2) _ rev] p(1) show ?thesis
    by (simp add: holds_def c grid_def)
qed

definition pass_sound :: "coord set \<Rightarrow> pass_state \<Rightarrow> bool" where
  "pass_sound M st \<longleftrightarrow>
     (\<forall>c \<in> set (new_constraints st). holds M c) \<and> sound M (safe_cells st) (mine_cells st)"

lemma holds_diff:
  assumes "holds M (l1, k1)" "holds M (l2, k2)" "l1 \<subseteq> l2"
  shows "holds M (l2 - l1, k2 - k1)"
proof -
  have "(l2 - l1) \<inter> M = l2 \<inter> M - l1 \<inter> M" by blast
  moreover have "card (l2 \<inter> M - l1 \<inter> M) = card (l2 \<inter> M) - card (l1 \<inter> M)"
    using assms by (intro card_Diff_subset) (auto simp: holds_def)
  moreover have "card (l1 \<inter> M) \<le> card (l2 \<inter> M)"
    using assms by (intro card_mono) (auto simp: holds_def)
  ultimately show ?thesis
    using assms by (auto simp: holds_def)
qed

lemma holds_zero: "holds M (l, 0) \<Longrightarrow> l \<inter> M = {}"
  by (auto simp: holds_def)

lemma holds_full: "holds M (l, int (card l)) \<Longrightarrow> l \<subseteq> M"
proof -
  assume h: "holds M (l, int (card l))"
  then have "l \<inter> M = l"
    by (intro card_subset_eq) (auto simp: holds_def)
  then show ?thesis by blast
qed

lemma resolve_pair_sound:
  assumes "pass_sound M st" "holds M (new_limits, new_count)"
  shows "pass_sound M (resolve_pair j new_limits new_count st)"
proof -
  have "new_limits \<inter> M = {}" if "new_count = 0"
    using assms(2) that holds_zero by blast
  moreover have "new_limits \<subseteq> M" if "new_count = int (card new_limits)"
    using assms(2) that holds_full by blast
  ultimately show ?thesis
    using assms by (auto simp: pass_sound_def resolve_pair_def Let_def sound_def)
qed

lemma resolve_single_sound:
  assumes "pass_sound M st" "holds M (limits1, count1)"
  shows "pass_sound M (resolve_single limits1 count1 st)"
proof -
  have "limits1 \<inter> M = {}" if "count1 = 0"
    using assms(2) that holds_zero by blast
  moreover have "limits1 \<subseteq> M" if "count1 = int (card limits1)"
    using assms(2) that holds_full by blast
  ultimately show ?thesis
    using assms by (auto simp: pass_sound_def resolve_single_def sound_def)
qed

lemma inner_step_sound:
  assumes "pass_sound M st" "holds M c1" "holds M (snd jc)"
  shows "pass_sound M (inner_step i c1 jc st)"
proof -
  have 1: "holds M (fst (snd jc) - fst c1, snd (snd jc) - snd c1)" if "fst c1 \<subseteq> fst (snd jc)"
    using holds_diff [of M "fst c1" "snd c1" "fst (snd jc)" "snd (snd jc)"] assms(2,3) that by simp
  have 2: "holds M (fst c1 - fst (snd jc), snd c1 - snd (snd jc))" if "fst (snd jc) \<subseteq> fst c1"
    using holds_diff [of M "fst (snd jc)" "snd (snd jc)" "fst c1" "snd c1"] assms(2,3) that by simp
  show ?thesis
    using assms(1) 1 2 by (simp add: inner_step_def Let_def resolve_pair_sound)
qed

lemma pass_sound_added: "pass_sound M (st\<lparr>added := b\<rparr>) = pass_sound M st"
  by (simp add: pass_sound_def)

lemma outer_step_sound:
  assumes "pass_sound M st" "\<forall>c \<in> set cs. holds M c" "ic \<in> set (enumerate 0 cs)"
  shows "pass_sound M (outer_step cs ic st)"
proof -
  have h: "holds M (fst (snd ic), snd (snd ic))"
    using assms(2,3) in_enumerate_snd [of ic 0 cs] by simp
  have "pass_sound M (fold (inner_step (fst ic) (fst (snd ic), snd (snd ic))) (enumerate 0 cs)
                        (st\<lparr>added := False\<rparr>))"
    by (rule fold_inv [where P = "pass_sound M"])
       (use assms h in \<open>auto simp: pass_sound_added intro!: inner_step_sound dest: in_enumerate_snd\<close>)
  then show ?thesis
    using assms(1) h by (simp add: outer_step_def Let_def resolve_single_sound)
qed

lemma csp_pass_sound:
  assumes "\<forall>c \<in> set cs. holds M c" "sound M safe mine"
  shows "pass_sound M (csp_pass cs safe mine)"
  unfolding csp_pass_def
proof (rule fold_inv [where P = "pass_sound M"])
  show "pass_sound M \<lparr>new_constraints = [], processed = {}, safe_cells = safe, mine_cells = mine,
        flag = False, added = False\<rparr>"
    using assms(2) by (simp add: pass_sound_def)
qed (use assms(1) in \<open>auto intro: outer_step_sound\<close>)

lemma sound_Un: "sound M ks km \<Longrightarrow> sound M safe mine \<Longrightarrow> sound M (ks \<union> safe) (km \<union> mine)"
  by (auto simp: sound_def)

lemma csp_loop_sound:
  "rows = board_rows board \<Longrightarrow> cols = board_cols board \<Longrightarrow> consistent board M \<Longrightarrow>
   sound M ks km \<Longrightarrow> \<forall>c \<in> set cs. holds M c \<Longrightarrow> sound M safe mine \<Longrightarrow>
   sound M (fst (csp_loop board rows cols ks km cs safe mine))
           (snd (csp_loop board rows cols ks km cs safe mine))"
proof (induction board rows cols ks km cs safe mine rule: csp_loop.induct)
  case (1 board rows cols ks km cs safe mine)
  define st where "st = csp_pass cs safe mine"
  have unf: "csp_loop board rows cols ks km cs safe mine =
     (if flag st
      then csp_loop board rows cols ks km (next_constraints board rows cols ks km st)
             (safe_cells st) (mine_cells st)
      else (safe_cells st, mine_cells st))"
    by (subst csp_loop.simps) (simp add: st_def Let_def)
  have ps: "pass_sound M st"
    unfolding st_def using "1.prems"(5,6) by (rule csp_pass_sound)
  then have acc: "sound M (safe_cells st) (mine_cells st)"
    by (simp add: pass_sound_def)
  show ?case
  proof (cases "flag st")
    case True
    have "\<forall>c \<in> set (next_constraints board rows cols ks km st). holds M c"
      using ps holds_scan [OF "1.prems"(3) sound_Un [OF "1.prems"(4) acc]] "1.prems"(1,2)
      by (auto simp: next_constraints_def pass_sound_def)
    from "1.IH" [OF st_def True "1.prems"(1-4) this acc] True show ?thesis
      by (simp add: unf)
  next
    case False
    with acc show ?thesis by (simp add: unf)
  qed
qed

lemma basic_loop_sound:
  "basic_loop board rows cols safe mine = Inr res \<Longrightarrow>
   rows = board_rows board \<Longrightarrow> cols = board_cols board \<Longrightarrow> consistent board M \<Longrightarrow>
   sound M safe mine \<Longrightarrow> sound M (fst res) (snd res)"
proof (induction board rows cols safe mine rule: basic_loop.induct)
  case (1 board rows cols safe mine)
  have unf: "(case apply_basic_rules board rows cols safe mine of
        Inl e \<Rightarrow> Inl e
      | Inr new \<Rightarrow>
          if fst new \<noteq> {} \<or> snd new \<noteq> {}
          then basic_loop board rows cols (safe \<union> fst new) (mine \<union> snd new)
          else Inr (safe, mine)) = Inr res"
    using "1.prems"(1) by (subst (asm) basic_loop.simps)
  then obtain new where new: "apply_basic_rules board rows cols safe mine = Inr new"
    by (cases "apply_basic_rules board rows cols safe mine") auto
  then have scan: "new = basic_scan board rows cols safe mine"
    by (auto simp: apply_basic_rules_def split: if_splits)
  have ns: "sound M (fst new) (snd new)"
    unfolding scan using basic_scan_sound [OF "1.prems"(4,5)] "1.prems"(2,3) by simp
  show ?case
  proof (cases "fst new \<noteq> {} \<or> snd new \<noteq> {}")
    case True
    with unf new
    have "basic_loop board rows cols (safe \<union> fst new) (mine \<union> snd new) = Inr res" by simp
    from "1.IH" [OF new True this "1.prems"(2,3,4) sound_Un [OF "1.prems"(5) ns]]
    show ?thesis .
  next
    case False
    with unf "1.prems"(5) new show ?thesis by auto
  qed
qed

text \<open>
  A flag on a cell without a mine, which \<open>toggle_flag\<close> allows: the row holds the wrongly
  flagged cell, the number 1 and a hidden mine. The arrangement of the board itself meets
  the count of the one revealed cell, and \<open>solve_step\<close> returns the mine as safe.
\<close>

definition wrong_flag_cell :: Cell where
  "wrong_flag_cell = \<lparr>is_mine = False, is_revealed = False, is_flagged = True, adjacent_mines = 0\<rparr>"

definition board_wrong_flag :: board where
  "board_wrong_flag = [[wrong_flag_cell, number_cell 1, mine_cell]]"

theorem solve_step_trusts_flags:
  "solve_step board_wrong_flag = Inr ({(0, 2)}, {}) \<and>
   mines_of_board board_wrong_flag = {(0, 2)} \<and>
   counts_met board_wrong_flag {(0, 2)} \<and>
   {(0, 2)} \<inter> {(0, 2) :: coord} \<noteq> {}"
  by code_simp

text \<open>
  The revealed cells matter as well: in a row of two revealed cells that show 1 and a
  hidden mine, the arrangement with a mine under each revealed cell meets both counts, and
  the mine that \<open>solve_step\<close> returns is not in it.
\<close>

definition board_two_numbers :: board where
  "board_two_numbers = [[number_cell 1, number_cell 1, mine_cell]]"

lemma revealed_cells_matter:
  "solve_step board_two_numbers = Inr ({}, {(0, 2)}) \<and>
   counts_met board_two_numbers {(0, 0), (0, 1)} \<and>
   flags_are_mines board_two_numbers {(0, 0), (0, 1)} \<and>
   \<not> {(0, 2)} \<subseteq> {(0, 0), (0, 1) :: coord}"
  by code_simp

text \<open>
  Claim C1, in the form that holds of the code. When \<open>solve_step\<close> returns, then in every
  mine arrangement that meets the count of every revealed cell, holds a mine under every
  flag and none under a revealed cell, every cell of the returned mine set holds a mine
  and no cell of the returned safe set does.
\<close>

theorem solve_step_sound:
  assumes "solve_step board = Inr (safe, mines)"
    and "counts_met board M" and "flags_are_mines board M" and "revealed_are_clear board M"
  shows "mines \<subseteq> M \<and> safe \<inter> M = {}"
proof -
  let ?rows = "board_rows board" and ?cols = "board_cols board"
  from assms(2-4) have cons: "consistent board M"
    by (simp add: consistent_def)
  from assms(1) obtain found csp where
    found: "basic_loop board ?rows ?cols {} {} = Inr found" and
    csp: "apply_csp_solver board ?rows ?cols (fst found) (snd found) = Inr csp" and
    res: "safe = fst found \<union> fst csp" "mines = snd found \<union> snd csp"
    by (auto simp: solve_step_def Let_def split: sum.splits)
  have f: "sound M (fst found) (snd found)"
    using basic_loop_sound [OF found refl refl cons] by (simp add: sound_def)
  let ?cs = "constraints_scan board ?rows ?cols (fst found) (snd found)"
  from csp have "csp = ({}, {}) \<or> csp = csp_loop board ?rows ?cols (fst found) (snd found) ?cs {} {}"
    by (auto simp: apply_csp_solver_def generate_constraints_def split: if_splits)
  moreover have "sound M (fst (csp_loop board ?rows ?cols (fst found) (snd found) ?cs {} {}))
                         (snd (csp_loop board ?rows ?cols (fst found) (snd found) ?cs {} {}))"
    using holds_scan [OF cons f] by (intro csp_loop_sound refl cons f) (auto simp: sound_def)
  ultimately have "sound M (fst csp) (snd csp)"
    by (auto simp: sound_def)
  with f res show ?thesis by (auto simp: sound_def)
qed

lemma consistent_board_121:
  "counts_met board_121 {(0, 0), (0, 2)}" "flags_are_mines board_121 {(0, 0), (0, 2)}"
  "revealed_are_clear board_121 {(0, 0), (0, 2)}"
  by code_simp+

theorem solve_step_sound_witness:
  "solve_step board_121 = Inr ({(0, 1)}, {(0, 0), (0, 2)}) \<and>
   counts_met board_121 {(0, 0), (0, 2)} \<and> flags_are_mines board_121 {(0, 0), (0, 2)} \<and>
   revealed_are_clear board_121 {(0, 0), (0, 2)} \<and>
   {(0, 0), (0, 2)} \<subseteq> {(0, 0), (0, 2) :: coord} \<and> {(0, 1)} \<inter> {(0, 0), (0, 2) :: coord} = {}"
  using solve_step_sound [OF solve_step_board_121 consistent_board_121]
    solve_step_board_121 consistent_board_121
  by simp


section \<open>The generator against the specification\<close>


text \<open>
  The constraints as the specification words them. The unknown neighbours of a cell are
  its hidden, unflagged neighbours that are in neither known set; its known mine count is
  the number of its neighbours that are flagged or in the known-mine set. There is one
  constraint for every revealed, non-mine cell whose count is greater than zero and that
  has an unknown neighbour.
\<close>

definition spec_unknown_neighbours ::
  "board \<Rightarrow> int \<Rightarrow> int \<Rightarrow> coord set \<Rightarrow> coord set \<Rightarrow> coord \<Rightarrow> coord set" where
  "spec_unknown_neighbours board rows cols known_safe known_mines p =
     {n \<in> set (neighbours rows cols p).
        \<not> is_revealed (cell_at board n) \<and> \<not> is_flagged (cell_at board n) \<and>
        n \<notin> known_safe \<and> n \<notin> known_mines}"

definition spec_known_mine_count ::
  "board \<Rightarrow> int \<Rightarrow> int \<Rightarrow> coord set \<Rightarrow> coord \<Rightarrow> int" where
  "spec_known_mine_count board rows cols known_mines p =
     int (card {n \<in> set (neighbours rows cols p).
                  is_flagged (cell_at board n) \<or> n \<in> known_mines})"

definition spec_constraints ::
  "board \<Rightarrow> int \<Rightarrow> int \<Rightarrow> coord set \<Rightarrow> coord set \<Rightarrow> constraint list" where
  "spec_constraints board rows cols known_safe known_mines =
     map (\<lambda>p. (spec_unknown_neighbours board rows cols known_safe known_mines p,
                adjacent_mines (cell_at board p) -
                  spec_known_mine_count board rows cols known_mines p))
       (filter (\<lambda>p. is_revealed (cell_at board p) \<and> \<not> is_mine (cell_at board p) \<and>
                     adjacent_mines (cell_at board p) > 0 \<and>
                     spec_unknown_neighbours board rows cols known_safe known_mines p \<noteq> {})
          (scan rows cols))"

lemma concat_map_filter:
  assumes "\<forall>x \<in> set xs. g x = (if P x then [f x] else [])"
  shows "concat (map g xs) = map f (filter P xs)"
  using assms by (induction xs) auto

lemma spec_unknown_eq:
  "spec_unknown_neighbours board rows cols ks km p =
     {n \<in> set (neighbours rows cols p). unknown board ks km n}"
  by (simp add: spec_unknown_neighbours_def unknown_def)

lemma spec_known_eq:
  "spec_known_mine_count board rows cols km p =
     int (length (filter (known_mine board km) (neighbours rows cols p)))"
proof -
  have "{n \<in> set (neighbours rows cols p). is_flagged (cell_at board n) \<or> n \<in> km} =
        set (filter (known_mine board km) (neighbours rows cols p))"
    by (auto simp: known_mine_def)
  moreover have "card (set (filter (known_mine board km) (neighbours rows cols p))) =
                 length (filter (known_mine board km) (neighbours rows cols p))"
    by (rule distinct_card) (simp add: distinct_neighbours)
  ultimately show ?thesis
    by (simp only: spec_known_mine_count_def)
qed

lemma constraints_scan_spec:
  assumes "\<forall>p \<in> set (scan rows cols).
             is_revealed (cell_at board p) \<and> \<not> is_mine (cell_at board p) \<longrightarrow>
             0 \<le> adjacent_mines (cell_at board p)"
  shows "constraints_scan board rows cols ks km = spec_constraints board rows cols ks km"
  unfolding constraints_scan_def spec_constraints_def
proof (rule concat_map_filter, rule ballI)
  fix p assume "p \<in> set (scan rows cols)"
  with assms have "is_revealed (cell_at board p) \<and> \<not> is_mine (cell_at board p) \<longrightarrow>
             0 \<le> adjacent_mines (cell_at board p)" by blast
  then show "cell_constraints board rows cols ks km p =
     (if is_revealed (cell_at board p) \<and> \<not> is_mine (cell_at board p) \<and>
         0 < adjacent_mines (cell_at board p) \<and>
         spec_unknown_neighbours board rows cols ks km p \<noteq> {}
      then [(spec_unknown_neighbours board rows cols ks km p,
             adjacent_mines (cell_at board p) - spec_known_mine_count board rows cols km p)]
      else [])"
    by (auto simp: cell_constraints_def Let_def fold_classify spec_unknown_eq spec_known_eq)
qed

text \<open>
  Claim C8. On a board that has every cell of the scan (otherwise the scan raises
  \<open>IndexError\<close>) and whose revealed cells show counts that are not negative,
  \<open>_generate_constraints\<close> returns exactly the constraints of the specification, one per
  qualifying cell in the order of the scan, for every pair of known sets; none of them has
  an empty cell set.
\<close>

theorem generate_constraints_spec:
  assumes "covers board rows cols"
    and "\<forall>p \<in> set (scan rows cols).
             is_revealed (cell_at board p) \<and> \<not> is_mine (cell_at board p) \<longrightarrow>
             0 \<le> adjacent_mines (cell_at board p)"
  shows "generate_constraints board rows cols known_safe known_mines =
           Inr (spec_constraints board rows cols known_safe known_mines) \<and>
         (\<forall>c \<in> set (spec_constraints board rows cols known_safe known_mines). fst c \<noteq> {})"
  using assms constraints_scan_spec [OF assms(2), of known_safe known_mines]
  by (auto simp: generate_constraints_def spec_constraints_def)


lemma covers_board_121: "covers board_121 2 3"
  by code_simp

lemma counts_board_121:
  "\<forall>p \<in> set (scan 2 3).
     is_revealed (cell_at board_121 p) \<and> \<not> is_mine (cell_at board_121 p) \<longrightarrow>
     0 \<le> adjacent_mines (cell_at board_121 p)"
  by code_simp

theorem generate_constraints_spec_witness:
  "covers board_121 2 3 \<and>
   generate_constraints board_121 2 3 {(0, 1)} {(0, 0)} = Inr [({(0, 2)}, 1), ({(0, 2)}, 1)] \<and>
   spec_constraints board_121 2 3 {(0, 1)} {(0, 0)} = [({(0, 2)}, 1), ({(0, 2)}, 1)]"
proof -
  have "spec_constraints board_121 2 3 {(0, 1)} {(0, 0)} = [({(0, 2)}, 1), ({(0, 2)}, 1)]"
    by code_simp
  with generate_constraints_spec [OF covers_board_121 counts_board_121, of "{(0, 1)}" "{(0, 0)}"]
    covers_board_121
  show ?thesis by simp
qed


section \<open>A call of solve_step and the caller's board\<close>

text \<open>
  The board belongs to the caller, and a method that gets it can read it and assign to it.
  Here the solver is written once more as code that runs on the board as a state: an
  action takes the board as it is, returns a value or raises, and leaves a board. Every
  \<open>board[row][col]\<close> of the source is a step of its own, so that what a call leaves of
  the board is the outcome of the steps it takes.
\<close>

type_synonym 'a action = "board \<Rightarrow> (error + 'a) \<times> board"

text \<open>Returning a value, running one action after another, and a \<open>for\<close> loop.\<close>

definition result :: "'a \<Rightarrow> 'a action" where
  "result x board = (Inr x, board)"

definition and_then :: "'a action \<Rightarrow> ('a \<Rightarrow> 'b action) \<Rightarrow> 'b action" where
  "and_then m f board =
     (case m board of (Inl e, board') \<Rightarrow> (Inl e, board') | (Inr x, board') \<Rightarrow> f x board')"

fun for_loop :: "('a \<Rightarrow> 's \<Rightarrow> 's action) \<Rightarrow> 'a list \<Rightarrow> 's \<Rightarrow> 's action" where
  "for_loop body [] s = result s"
| "for_loop body (x # xs) s = and_then (body x s) (for_loop body xs)"

text \<open>
  The steps on the board: \<open>len(board)\<close>, \<open>len(board[0]) if rows > 0 else 0\<close>,
  reading \<open>board[row][col]\<close> and assigning to a field of \<open>board[row][col]\<close>, the two
  indices not negative.
\<close>

definition read_rows :: "int action" where
  "read_rows board = (Inr (int (length board)), board)"

definition read_cols :: "int \<Rightarrow> int action" where
  "read_cols rows board =
     (if rows > 0
      then (if 0 < length board then Inr (int (length (board ! 0))) else Inl IndexError, board)
      else (Inr 0, board))"

definition read_cell :: "coord \<Rightarrow> Cell action" where
  "read_cell p board =
     (if nat (fst p) < length board \<and> nat (snd p) < length (board ! nat (fst p))
      then (Inr (board ! nat (fst p) ! nat (snd p)), board)
      else (Inl IndexError, board))"

definition write_cell :: "coord \<Rightarrow> Cell \<Rightarrow> unit action" where
  "write_cell p cell board =
     (if nat (fst p) < length board \<and> nat (snd p) < length (board ! nat (fst p))
      then (Inr (), board[nat (fst p) := (board ! nat (fst p))[nat (snd p) := cell]])
      else (Inl IndexError, board))"

text \<open>
  \<open>toggle_flag\<close> of the engine, which assigns to \<open>cell.is_flagged\<close>: an action that does
  not leave the board as it was.
\<close>

definition toggle_flag :: "int \<Rightarrow> int \<Rightarrow> bool action" where
  "toggle_flag row col =
     and_then read_rows (\<lambda>rows.
     and_then (read_cols rows) (\<lambda>cols.
       if \<not> (0 \<le> row \<and> row < rows \<and> 0 \<le> col \<and> col < cols) then result False
       else
         and_then (read_cell (row, col)) (\<lambda>cell.
           if is_revealed cell then result False
           else
             and_then (write_cell (row, col) (cell\<lparr>is_flagged := \<not> is_flagged cell\<rparr>))
               (\<lambda>u. result True))))"

text \<open>
  \<open>_generate_constraints\<close>, \<open>_apply_basic_rules\<close>, \<open>_apply_csp_solver\<close> and \<open>solve_step\<close>
  statement by statement. The sets and lists that they update are their own.
\<close>

definition do_classify_neighbour ::
  "coord set \<Rightarrow> coord set \<Rightarrow> coord \<Rightarrow> coord set \<times> int \<Rightarrow> (coord set \<times> int) action" where
  "do_classify_neighbour known_safe known_mines n acc =
     and_then (read_cell n) (\<lambda>n_cell.
       result (if n \<in> known_mines \<or> is_flagged n_cell then (fst acc, snd acc + 1)
               else if \<not> is_revealed n_cell \<and> n \<notin> known_safe then (insert n (fst acc), snd acc)
               else acc))"

definition do_cell_constraints ::
  "int \<Rightarrow> int \<Rightarrow> coord set \<Rightarrow> coord set \<Rightarrow> coord \<Rightarrow> constraint list \<Rightarrow>
     constraint list action" where
  "do_cell_constraints rows cols known_safe known_mines p constraints =
     and_then (read_cell p) (\<lambda>cell.
       if \<not> is_revealed cell \<or> is_mine cell \<or> adjacent_mines cell = 0 then result constraints
       else
         and_then (for_loop (do_classify_neighbour known_safe known_mines)
                     (neighbours rows cols p) ({}, 0)) (\<lambda>acc.
           if fst acc \<noteq> {}
           then result (constraints @ [(fst acc, adjacent_mines cell - snd acc)])
           else result constraints))"

definition do_generate_constraints ::
  "int \<Rightarrow> int \<Rightarrow> coord set \<Rightarrow> coord set \<Rightarrow> constraint list action" where
  "do_generate_constraints rows cols known_safe known_mines =
     for_loop (do_cell_constraints rows cols known_safe known_mines) (scan rows cols) []"

definition do_count_neighbour ::
  "coord set \<Rightarrow> coord set \<Rightarrow> coord \<Rightarrow> coord list \<times> int \<Rightarrow> (coord list \<times> int) action" where
  "do_count_neighbour known_safe known_mines n acc =
     and_then (read_cell n) (\<lambda>n_cell.
       result (if \<not> is_revealed n_cell then
                 (if is_flagged n_cell \<or> n \<in> known_mines then (fst acc, snd acc + 1)
                  else if n \<notin> known_safe \<and> n \<notin> known_mines then (fst acc @ [n], snd acc)
                  else acc)
               else acc))"

definition do_basic_cell ::
  "int \<Rightarrow> int \<Rightarrow> coord set \<Rightarrow> coord set \<Rightarrow> coord \<Rightarrow> coord set \<times> coord set \<Rightarrow>
     (coord set \<times> coord set) action" where
  "do_basic_cell rows cols known_safe known_mines p found =
     and_then (read_cell p) (\<lambda>cell.
       if \<not> is_revealed cell \<or> is_mine cell then result found
       else
         and_then (for_loop (do_count_neighbour known_safe known_mines)
                     (neighbours rows cols p) ([], 0)) (\<lambda>acc.
           if fst acc \<noteq> [] \<and> adjacent_mines cell = snd acc + int (length (fst acc))
           then result (fst found, snd found \<union> {c \<in> set (fst acc). c \<notin> known_mines})
           else if fst acc \<noteq> [] \<and> adjacent_mines cell = snd acc
           then result (fst found \<union> {c \<in> set (fst acc). c \<notin> known_safe}, snd found)
           else result found))"

definition do_apply_basic_rules ::
  "int \<Rightarrow> int \<Rightarrow> coord set \<Rightarrow> coord set \<Rightarrow> (coord set \<times> coord set) action" where
  "do_apply_basic_rules rows cols known_safe known_mines =
     for_loop (do_basic_cell rows cols known_safe known_mines) (scan rows cols) ({}, {})"

text \<open>
  An action only reads on a board when it leaves the board as it was, and raises nothing
  but \<open>IndexError\<close>.
\<close>

definition reads_only :: "'a action \<Rightarrow> board \<Rightarrow> bool" where
  "reads_only m board \<longleftrightarrow> (\<exists>y. m board = (Inr y, board)) \<or> m board = (Inl IndexError, board)"

lemma reads_only_result: "reads_only (result x) board"
  by (simp add: reads_only_def result_def)

lemma reads_only_read_cell: "reads_only (read_cell p) board"
  by (simp add: reads_only_def read_cell_def)

lemma reads_only_and_then:
  assumes "reads_only m board" "\<And>y. reads_only (f y) board"
  shows "reads_only (and_then m f) board"
  using assms(1) unfolding reads_only_def [of m]
proof
  assume "\<exists>y. m board = (Inr y, board)"
  then obtain y where "m board = (Inr y, board)" by blast
  then have "and_then m f board = f y board" by (simp add: and_then_def)
  with assms(2) [of y] show ?thesis by (simp add: reads_only_def)
next
  assume "m board = (Inl IndexError, board)"
  then show ?thesis by (simp add: reads_only_def and_then_def)
qed

lemma reads_only_for_loop:
  assumes "\<And>x s. reads_only (body x s) board"
  shows "reads_only (for_loop body xs s) board"
proof (induction xs arbitrary: s)
  case Nil
  show ?case by (simp add: reads_only_result)
next
  case (Cons x xs)
  show ?case
    by (simp, rule reads_only_and_then) (rule assms, rule Cons.IH)
qed

lemma for_loop_pure:
  assumes "\<And>x s. x \<in> set xs \<Longrightarrow> body x s board = (Inr (f x s), board)"
  shows "for_loop body xs s board = (Inr (fold f xs s), board)"
  using assms
proof (induction xs arbitrary: s)
  case Nil
  show ?case by (simp add: result_def)
next
  case (Cons x xs)
  then show ?case by (simp add: and_then_def)
qed

lemma for_loop_fails:
  assumes "\<And>x s. reads_only (body x s) board"
    and "x \<in> set xs" and "\<And>s. body x s board = (Inl IndexError, board)"
  shows "for_loop body xs s board = (Inl IndexError, board)"
  using assms(2)
proof (induction xs arbitrary: s)
  case Nil
  then show ?case by simp
next
  case (Cons a xs)
  from assms(1) [of a s] show ?case
    unfolding reads_only_def
  proof
    assume "\<exists>y. body a s board = (Inr y, board)"
    then obtain y where y: "body a s board = (Inr y, board)" by blast
    with assms(3) [of s] have "a \<noteq> x" by auto
    with Cons.prems have "x \<in> set xs" by simp
    from Cons.IH [OF this, of y] y show ?thesis by (simp add: and_then_def)
  next
    assume "body a s board = (Inl IndexError, board)"
    then show ?thesis by (simp add: and_then_def)
  qed
qed

text \<open>The two scans run as actions give what the functions of the board give.\<close>

lemma read_cell_covers:
  assumes "covers board rows cols" "p \<in> grid rows cols"
  shows "read_cell p board = (Inr (cell_at board p), board)"
  using assms by (auto simp: covers_def list_all_iff grid_def read_cell_def cell_at_def)

lemma read_cell_fails:
  assumes "\<not> covers board rows cols"
  shows "\<exists>p \<in> set (scan rows cols). read_cell p board = (Inl IndexError, board)"
  using assms by (auto simp: covers_def list_all_iff read_cell_def)

lemma do_classify_loop:
  assumes "covers board rows cols"
  shows "for_loop (do_classify_neighbour ks km) (neighbours rows cols p) acc board =
           (Inr (fold (classify_neighbour board ks km) (neighbours rows cols p) acc), board)"
proof (rule for_loop_pure)
  fix n s assume "n \<in> set (neighbours rows cols p)"
  then have "n \<in> grid rows cols" by (rule neighbours_grid)
  from read_cell_covers [OF assms this]
  show "do_classify_neighbour ks km n s board = (Inr (classify_neighbour board ks km n s), board)"
    by (simp add: do_classify_neighbour_def and_then_def result_def classify_neighbour_def)
qed

lemma do_cell_constraints_covers:
  assumes "covers board rows cols" "p \<in> grid rows cols"
  shows "do_cell_constraints rows cols ks km p cs board =
           (Inr (cs @ cell_constraints board rows cols ks km p), board)"
  using read_cell_covers [OF assms] do_classify_loop [OF assms(1), of ks km p]
  by (simp add: do_cell_constraints_def and_then_def result_def cell_constraints_def Let_def)

lemma fold_append_concat: "fold (\<lambda>x acc. acc @ g x) xs acc = acc @ concat (map g xs)"
  by (induction xs arbitrary: acc) simp_all

lemma reads_only_cell_constraints: "reads_only (do_cell_constraints rows cols ks km p cs) board"
  unfolding do_cell_constraints_def do_classify_neighbour_def
  by (intro reads_only_and_then reads_only_read_cell reads_only_for_loop)
     (auto intro!: reads_only_and_then reads_only_for_loop reads_only_read_cell reads_only_result)

lemma do_generate_constraints_eq:
  "do_generate_constraints rows cols ks km board =
     (generate_constraints board rows cols ks km, board)"
proof (cases "covers board rows cols")
  case True
  have "for_loop (do_cell_constraints rows cols ks km) (scan rows cols) [] board =
          (Inr (fold (\<lambda>p cs. cs @ cell_constraints board rows cols ks km p) (scan rows cols) []), board)"
    by (rule for_loop_pure) (simp add: do_cell_constraints_covers [OF True] grid_def)
  with True show ?thesis
    by (simp add: do_generate_constraints_def generate_constraints_def constraints_scan_def
        fold_append_concat)
next
  case False
  from read_cell_fails [OF False] obtain p where
    p: "p \<in> set (scan rows cols)" "read_cell p board = (Inl IndexError, board)" by blast
  have "for_loop (do_cell_constraints rows cols ks km) (scan rows cols) [] board =
          (Inl IndexError, board)"
  proof (rule for_loop_fails [OF _ p(1)])
    show "reads_only (do_cell_constraints rows cols ks km x s) board" for x s
      by (rule reads_only_cell_constraints)
    show "do_cell_constraints rows cols ks km p s board = (Inl IndexError, board)" for s
      using p(2) by (simp add: do_cell_constraints_def and_then_def)
  qed
  with False show ?thesis
    by (simp add: do_generate_constraints_def generate_constraints_def)
qed

lemma do_count_loop:
  assumes "covers board rows cols"
  shows "for_loop (do_count_neighbour ks km) (neighbours rows cols p) acc board =
           (Inr (fold (count_neighbour board ks km) (neighbours rows cols p) acc), board)"
proof (rule for_loop_pure)
  fix n s assume "n \<in> set (neighbours rows cols p)"
  then have "n \<in> grid rows cols" by (rule neighbours_grid)
  from read_cell_covers [OF assms this]
  show "do_count_neighbour ks km n s board = (Inr (count_neighbour board ks km n s), board)"
    by (simp add: do_count_neighbour_def and_then_def result_def count_neighbour_def)
qed

lemma do_basic_cell_covers:
  assumes "covers board rows cols" "p \<in> grid rows cols"
  shows "do_basic_cell rows cols ks km p found board =
           (Inr (basic_cell board rows cols ks km p found), board)"
  using read_cell_covers [OF assms] do_count_loop [OF assms(1), of ks km p]
  by (simp add: do_basic_cell_def and_then_def result_def basic_cell_def Let_def)

lemma reads_only_basic_cell: "reads_only (do_basic_cell rows cols ks km p found) board"
  unfolding do_basic_cell_def do_count_neighbour_def
  by (intro reads_only_and_then reads_only_read_cell reads_only_for_loop)
     (auto intro!: reads_only_and_then reads_only_for_loop reads_only_read_cell reads_only_result)

lemma do_apply_basic_rules_eq:
  "do_apply_basic_rules rows cols ks km board = (apply_basic_rules board rows cols ks km, board)"
proof (cases "covers board rows cols")
  case True
  have "for_loop (do_basic_cell rows cols ks km) (scan rows cols) ({}, {}) board =
          (Inr (fold (basic_cell board rows cols ks km) (scan rows cols) ({}, {})), board)"
    by (rule for_loop_pure) (simp add: do_basic_cell_covers [OF True] grid_def)
  with True show ?thesis
    by (simp add: do_apply_basic_rules_def apply_basic_rules_def basic_scan_def)
next
  case False
  from read_cell_fails [OF False] obtain p where
    p: "p \<in> set (scan rows cols)" "read_cell p board = (Inl IndexError, board)" by blast
  have "for_loop (do_basic_cell rows cols ks km) (scan rows cols) ({}, {}) board =
          (Inl IndexError, board)"
  proof (rule for_loop_fails [OF _ p(1)])
    show "reads_only (do_basic_cell rows cols ks km x s) board" for x s
      by (rule reads_only_basic_cell)
    show "do_basic_cell rows cols ks km p s board = (Inl IndexError, board)" for s
      using p(2) by (simp add: do_basic_cell_def and_then_def)
  qed
  with False show ?thesis
    by (simp add: do_apply_basic_rules_def apply_basic_rules_def)
qed

text \<open>
  The loop \<open>while flag\<close> of \<open>solve_step\<close>. It ends because each round leaves the board as
  it was and finds a cell that was not known before.
\<close>

function do_basic_loop ::
  "int \<Rightarrow> int \<Rightarrow> coord set \<Rightarrow> coord set \<Rightarrow> (coord set \<times> coord set) action" where
  "do_basic_loop rows cols safe mine board =
     (case do_apply_basic_rules rows cols safe mine board of
        (Inl e, board') \<Rightarrow> (Inl e, board')
      | (Inr new, board') \<Rightarrow>
          if fst new \<noteq> {} \<or> snd new \<noteq> {}
          then do_basic_loop rows cols (safe \<union> fst new) (mine \<union> snd new) board'
          else (Inr (safe, mine), board'))"
  by pat_completeness auto

termination do_basic_loop
proof (relation "measure (\<lambda>(rows, cols, safe, mine, board). card (grid rows cols - (safe \<union> mine)))")
  show "wf (measure (\<lambda>(rows, cols, safe, mine, board). card (grid rows cols - (safe \<union> mine))))"
    by simp
next
  fix rows cols safe mine board x1 board' new
  assume "(x1, board') = do_apply_basic_rules rows cols safe mine board" "x1 = Inr new"
    "fst new \<noteq> {} \<or> snd new \<noteq> {}"
  then have "apply_basic_rules board rows cols safe mine = Inr new"
    by (simp add: do_apply_basic_rules_eq)
  from basic_loop_decreases [OF this \<open>fst new \<noteq> {} \<or> snd new \<noteq> {}\<close>]
  show "((rows, cols, safe \<union> fst new, mine \<union> snd new, board'), (rows, cols, safe, mine, board))
          \<in> measure (\<lambda>(rows, cols, safe, mine, board). card (grid rows cols - (safe \<union> mine)))"
    by simp
qed

declare do_basic_loop.simps [simp del]

lemma do_basic_loop_eq:
  "do_basic_loop rows cols safe mine board = (basic_loop board rows cols safe mine, board)"
proof (induction board rows cols safe mine rule: basic_loop.induct)
  case (1 board rows cols safe mine)
  show ?case
  proof (cases "apply_basic_rules board rows cols safe mine")
    case (Inl e)
    then show ?thesis
      by (subst do_basic_loop.simps, subst basic_loop.simps) (simp add: do_apply_basic_rules_eq)
  next
    case (Inr new)
    show ?thesis
    proof (cases "fst new \<noteq> {} \<or> snd new \<noteq> {}")
      case True
      from "1.IH" [OF Inr True] Inr True show ?thesis
        by (subst do_basic_loop.simps, subst basic_loop.simps) (simp add: do_apply_basic_rules_eq)
    next
      case False
      with Inr show ?thesis
        by (subst do_basic_loop.simps, subst basic_loop.simps) (simp add: do_apply_basic_rules_eq)
    qed
  qed
qed


text \<open>The loop \<open>while flag\<close> of \<open>_apply_csp_solver\<close>.\<close>

function do_csp_loop ::
  "int \<Rightarrow> int \<Rightarrow> coord set \<Rightarrow> coord set \<Rightarrow> constraint list \<Rightarrow> coord set \<Rightarrow> coord set \<Rightarrow>
     (coord set \<times> coord set) action" where
  "do_csp_loop rows cols known_safe known_mines constraints safe mine board =
     (let st = csp_pass constraints safe mine
      in case (if flag st \<and> (safe_cells st \<noteq> {} \<or> mine_cells st \<noteq> {})
               then do_generate_constraints rows cols (known_safe \<union> safe_cells st)
                      (known_mines \<union> mine_cells st) board
               else result (new_constraints st) board) of
           (Inl e, board') \<Rightarrow> (Inl e, board')
         | (Inr constraints', board') \<Rightarrow>
             if flag st
             then do_csp_loop rows cols known_safe known_mines constraints'
                    (safe_cells st) (mine_cells st) board'
             else (Inr (safe_cells st, mine_cells st), board'))"
  by pat_completeness auto

lemma do_next_constraints:
  assumes "(if flag st \<and> (safe_cells st \<noteq> {} \<or> mine_cells st \<noteq> {})
            then do_generate_constraints rows cols (ks \<union> safe_cells st) (km \<union> mine_cells st) board
            else result (new_constraints st) board) = (Inr cs', board')"
  shows "board' = board \<and> cs' = next_constraints board rows cols ks km st"
  using assms
  by (auto simp: do_generate_constraints_eq generate_constraints_def next_constraints_def
      result_def split: if_splits)

termination do_csp_loop
proof (relation "measures
     [\<lambda>(rows, cols, ks, km, cs, safe, mine, board). csp_left rows cols ks km safe mine,
      \<lambda>(rows, cols, ks, km, cs, safe, mine, board). csp_level rows cols ks km cs safe mine]")
  show "wf (measures
     [\<lambda>(rows, cols, ks, km, cs, safe, mine, board). csp_left rows cols ks km safe mine,
      \<lambda>(rows, cols, ks, km, cs, safe, mine, board). csp_level rows cols ks km cs safe mine])"
    by simp
next
  fix rows cols ks km cs safe mine board st x1 board' cs'
  assume st: "st = csp_pass cs safe mine"
    and r: "(x1, board') =
       (if flag st \<and> (safe_cells st \<noteq> {} \<or> mine_cells st \<noteq> {})
        then do_generate_constraints rows cols (ks \<union> safe_cells st) (km \<union> mine_cells st) board
        else result (new_constraints st) board)"
    and x1: "x1 = Inr cs'" and fl: "flag st"
  from r x1 have "(if flag st \<and> (safe_cells st \<noteq> {} \<or> mine_cells st \<noteq> {})
        then do_generate_constraints rows cols (ks \<union> safe_cells st) (km \<union> mine_cells st) board
        else result (new_constraints st) board) = (Inr cs', board')"
    by simp
  from do_next_constraints [OF this]
  have cs': "cs' = next_constraints board rows cols ks km st" by simp
  from csp_pass_decreases [of cs safe mine rows cols ks km board] fl
  show "((rows, cols, ks, km, cs', safe_cells st, mine_cells st, board'),
         (rows, cols, ks, km, cs, safe, mine, board))
        \<in> measures
     [\<lambda>(rows, cols, ks, km, cs, safe, mine, board). csp_left rows cols ks km safe mine,
      \<lambda>(rows, cols, ks, km, cs, safe, mine, board). csp_level rows cols ks km cs safe mine]"
    unfolding st cs' by auto
qed

declare do_csp_loop.simps [simp del]

lemma do_csp_loop_eq:
  assumes "covers board rows cols"
  shows "do_csp_loop rows cols ks km cs safe mine board =
           (Inr (csp_loop board rows cols ks km cs safe mine), board)"
  using assms
proof (induction board rows cols ks km cs safe mine rule: csp_loop.induct)
  case (1 board rows cols ks km cs safe mine)
  define st where "st = csp_pass cs safe mine"
  have n: "(if flag st \<and> (safe_cells st \<noteq> {} \<or> mine_cells st \<noteq> {})
            then do_generate_constraints rows cols (ks \<union> safe_cells st) (km \<union> mine_cells st) board
            else result (new_constraints st) board) =
           (Inr (next_constraints board rows cols ks km st), board)"
    using "1.prems"
    by (auto simp: do_generate_constraints_eq generate_constraints_def next_constraints_def
        result_def)
  show ?case
  proof (cases "flag st")
    case True
    from "1.IH" [OF st_def True "1.prems"] n True show ?thesis
      by (subst do_csp_loop.simps, subst csp_loop.simps) (simp add: st_def [symmetric] Let_def)
  next
    case False
    with n show ?thesis
      by (subst do_csp_loop.simps, subst csp_loop.simps) (simp add: st_def [symmetric] Let_def)
  qed
qed

definition do_apply_csp_solver ::
  "int \<Rightarrow> int \<Rightarrow> coord set \<Rightarrow> coord set \<Rightarrow> (coord set \<times> coord set) action" where
  "do_apply_csp_solver rows cols known_safe known_mines =
     and_then (do_generate_constraints rows cols known_safe known_mines) (\<lambda>constraints.
       if constraints = [] then result ({}, {})
       else do_csp_loop rows cols known_safe known_mines constraints {} {})"

lemma do_apply_csp_solver_eq:
  "do_apply_csp_solver rows cols ks km board = (apply_csp_solver board rows cols ks km, board)"
proof (cases "covers board rows cols")
  case True
  then show ?thesis
    by (simp add: do_apply_csp_solver_def apply_csp_solver_def and_then_def result_def
        do_generate_constraints_eq generate_constraints_def do_csp_loop_eq)
next
  case False
  then show ?thesis
    by (simp add: do_apply_csp_solver_def apply_csp_solver_def and_then_def
        do_generate_constraints_eq generate_constraints_def)
qed

definition do_solve_step :: "(coord set \<times> coord set) action" where
  "do_solve_step =
     and_then read_rows (\<lambda>rows.
     and_then (read_cols rows) (\<lambda>cols.
     and_then (do_basic_loop rows cols {} {}) (\<lambda>found.
     and_then (do_apply_csp_solver rows cols (fst found) (snd found)) (\<lambda>csp.
       result (fst found \<union> fst csp, snd found \<union> snd csp)))))"

lemma do_solve_step_eq: "do_solve_step board = (solve_step board, board)"
proof -
  have rows: "read_rows board = (Inr (board_rows board), board)"
    by (simp add: read_rows_def board_rows_def)
  have cols: "read_cols (board_rows board) board = (Inr (board_cols board), board)"
    by (simp add: read_cols_def board_cols_def board_rows_def)
  show ?thesis
    by (simp add: do_solve_step_def solve_step_def and_then_def result_def rows cols
        do_basic_loop_eq do_apply_csp_solver_eq Let_def split: sum.splits)
qed

text \<open>
  An action can change the board: \<open>toggle_flag\<close> does, and it can put a flag on a cell
  that holds no mine.
\<close>

lemma toggle_flag_writes:
  "toggle_flag 0 0 [[hidden_cell]] =
     (Inr True, [[\<lparr>is_mine = False, is_revealed = False, is_flagged = True, adjacent_mines = 0\<rparr>]])"
  by code_simp

lemma toggle_flag_wrong:
  "toggle_flag 0 0 [[hidden_cell, number_cell 1, mine_cell]] = (Inr True, board_wrong_flag)"
  by code_simp

text \<open>
  Claim C4. A call of \<open>solve_step\<close> leaves every cell of the board as it was, and a second
  call on the board that the first one left returns the same pair of sets (or raises the
  same error) and again leaves the board as it was.
\<close>

theorem solve_step_idempotent:
  "snd (do_solve_step board) = board \<and>
   fst (do_solve_step (snd (do_solve_step board))) = fst (do_solve_step board) \<and>
   snd (do_solve_step (snd (do_solve_step board))) = board"
  by (simp add: do_solve_step_eq)

lemma do_solve_step_board_121:
  "do_solve_step board_121 = (Inr ({(0, 1)}, {(0, 0), (0, 2)}), board_121)"
  by code_simp

theorem solve_step_idempotent_witness:
  "do_solve_step board_121 = (Inr ({(0, 1)}, {(0, 0), (0, 2)}), board_121) \<and>
   snd (do_solve_step board_121) = board_121 \<and>
   fst (do_solve_step (snd (do_solve_step board_121))) = Inr ({(0, 1)}, {(0, 0), (0, 2)}) \<and>
   snd (do_solve_step (snd (do_solve_step board_121))) = board_121"
  using solve_step_idempotent [of board_121] do_solve_step_board_121
  by simp


section \<open>The probability calculator (Solver._calculate_probabilities)\<close>

text \<open>
  The dictionary \<open>{cells_list[i]: assignment[i] for i in range(len(assignment))}\<close>: a later
  index overwrites an earlier one, and \<open>cells_list[i]\<close> raises \<open>IndexError\<close> when the
  assignment is longer than the list of cells.
\<close>

definition cell_to_value :: "coord list \<Rightarrow> int list \<Rightarrow> error + (coord \<rightharpoonup> int)" where
  "cell_to_value cells_list assignment =
     (if length assignment > length cells_list then Inl IndexError
      else Inr (map_of (rev (zip cells_list assignment))))"

text \<open>\<open>cell_to_value.get(cell, 0)\<close>.\<close>

definition get_or_zero :: "(coord \<rightharpoonup> int) \<Rightarrow> coord \<Rightarrow> int" where
  "get_or_zero m cell = (case m cell of None \<Rightarrow> 0 | Some v \<Rightarrow> v)"

definition check_constraints :: "int list \<Rightarrow> coord list \<Rightarrow> constraint list \<Rightarrow> error + bool" where
  "check_constraints assignment cells_list constraints =
     (case cell_to_value cells_list assignment of
        Inl e \<Rightarrow> Inl e
      | Inr m \<Rightarrow>
          Inr (list_all (\<lambda>c. (\<Sum>cell \<in> fst c. get_or_zero m cell) = snd c) constraints))"

text \<open>
  The counters of \<open>_is_promising\<close> for one constraint: \<open>mine_count\<close> counts the cells of
  the constraint that the dictionary maps to 1, \<open>unassigned_count\<close> those that are not a
  key of it.
\<close>

definition promising_constraint :: "(coord \<rightharpoonup> int) \<Rightarrow> constraint \<Rightarrow> bool" where
  "promising_constraint m c =
     (let mine_count = int (card {cell \<in> fst c. m cell = Some 1});
          unassigned_count = int (card {cell \<in> fst c. m cell = None})
      in \<not> mine_count > snd c \<and> \<not> mine_count + unassigned_count < snd c)"

definition is_promising :: "int list \<Rightarrow> coord list \<Rightarrow> constraint list \<Rightarrow> error + bool" where
  "is_promising partial_assignment cells_list constraints =
     (case cell_to_value cells_list partial_assignment of
        Inl e \<Rightarrow> Inl e
      | Inr m \<Rightarrow> Inr (list_all (promising_constraint m) constraints))"

text \<open>
  The two variables that \<open>backtrack\<close> updates: \<open>total_solutions\<close> and the dictionary
  \<open>mine_counts\<close>, which has every cell of the region as a key.
\<close>

record tally =
  total_solutions :: nat
  mine_counts :: "coord \<Rightarrow> nat"

text \<open>The block under the successful check: count the solution and its mines.\<close>

definition count_solution :: "coord list \<Rightarrow> int list \<Rightarrow> tally \<Rightarrow> tally" where
  "count_solution cells_list assignment t =
     fold (\<lambda>(cell, v) t. if v = 1 then t\<lparr>mine_counts := (mine_counts t)(cell := mine_counts t cell + 1)\<rparr> else t)
       (zip cells_list assignment)
       (t\<lparr>total_solutions := total_solutions t + 1\<rparr>)"

text \<open>
  The closure \<open>backtrack(index, assignment)\<close>. It is entered with \<open>(0, [])\<close> and calls itself
  with \<open>index + 1\<close> and one more value, so \<open>index\<close> is the length of the assignment.
\<close>

function backtrack :: "constraint list \<Rightarrow> coord list \<Rightarrow> int list \<Rightarrow> tally \<Rightarrow> error + tally" where
  "backtrack constraints cells_list assignment t =
     (if length assignment = length cells_list then
        (case check_constraints assignment cells_list constraints of
           Inl e \<Rightarrow> Inl e
         | Inr ok \<Rightarrow> Inr (if ok then count_solution cells_list assignment t else t))
      else
        (case (case is_promising (assignment @ [0]) cells_list constraints of
                 Inl e \<Rightarrow> Inl e
               | Inr ok \<Rightarrow>
                   if ok then backtrack constraints cells_list (assignment @ [0]) t else Inr t) of
           Inl e \<Rightarrow> Inl e
         | Inr t' \<Rightarrow>
             (case is_promising (assignment @ [1]) cells_list constraints of
                Inl e \<Rightarrow> Inl e
              | Inr ok \<Rightarrow>
                  if ok then backtrack constraints cells_list (assignment @ [1]) t' else Inr t')))"
  by pat_completeness auto

lemma is_promising_length:
  "is_promising a cells_list constraints = Inr ok \<Longrightarrow> length a \<le> length cells_list"
  by (auto simp: is_promising_def cell_to_value_def split: if_splits)

termination backtrack
  by (relation "measure (\<lambda>(constraints, cells_list, assignment, t). length cells_list - length assignment)")
     (auto dest!: is_promising_length)

declare backtrack.simps [simp del]

definition calculate_probabilities ::
  "constraint list \<Rightarrow> coord set \<Rightarrow> error + (coord \<rightharpoonup> real)" where
  "calculate_probabilities constraints cells =
     (let cells_list = sorted_list_of_set cells; n = length cells_list
      in if n = 0 then Inr Map.empty
         else
           (case backtrack constraints cells_list []
                   \<lparr>total_solutions = 0, mine_counts = (\<lambda>cell. 0)\<rparr> of
              Inl e \<Rightarrow> Inl e
            | Inr t \<Rightarrow>
                if total_solutions t = 0
                then Inr (\<lambda>cell. if cell \<in> cells then Some (1 / 2) else None)
                else Inr (\<lambda>cell. if cell \<in> cells
                                   then Some (real (mine_counts t cell) / real (total_solutions t))
                                   else None)))"



section \<open>The search against exhaustive enumeration\<close>

text \<open>
  The naive enumeration of the specification: every list of \<open>n\<close> values 0 or 1, in the
  order in which a depth-first search without pruning reaches them, each one checked by
  \<open>_check_constraints\<close> and counted when the check succeeds.
\<close>

fun all_assignments :: "nat \<Rightarrow> int list list" where
  "all_assignments 0 = [[]]"
| "all_assignments (Suc n) = map ((#) 0) (all_assignments n) @ map ((#) 1) (all_assignments n)"

definition visit :: "constraint list \<Rightarrow> coord list \<Rightarrow> int list \<Rightarrow> tally \<Rightarrow> tally" where
  "visit constraints cells_list assignment t =
     (if check_constraints assignment cells_list constraints = Inr True
      then count_solution cells_list assignment t else t)"

definition naive_enumeration :: "constraint list \<Rightarrow> coord list \<Rightarrow> tally \<Rightarrow> tally" where
  "naive_enumeration constraints cells_list t =
     fold (visit constraints cells_list) (all_assignments (length cells_list)) t"

text \<open>The cells that an assignment makes mines; what it means for a set of mines to
  satisfy every constraint exactly.\<close>

definition mines_of :: "coord list \<Rightarrow> int list \<Rightarrow> coord set" where
  "mines_of cells_list assignment = {cell. (cell, 1) \<in> set (zip cells_list assignment)}"

lemma all_assignments_elem:
  "s \<in> set (all_assignments k) \<Longrightarrow> length s = k \<and> set s \<subseteq> {0, 1}"
  by (induction k arbitrary: s) fastforce+

lemma zip_take_snd: "zip (take (length ys) xs) ys = zip xs ys"
  by (induction xs ys rule: list_induct2') auto

lemma zip_prefix: "set (zip cl p) \<subseteq> set (zip cl (p @ s))"
  by (simp add: zip_append2 zip_take_snd)

lemma value_Some:
  assumes "distinct cl"
  shows "map_of (rev (zip cl a)) c = Some v \<longleftrightarrow> (c, v) \<in> set (zip cl a)"
proof -
  have "distinct (map fst (rev (zip cl a)))"
    using assms by (simp add: rev_map [symmetric] map_fst_zip_take)
  then show ?thesis
    using map_of_eq_Some_iff [of "rev (zip cl a)" c v] by simp
qed

lemma value_None: "map_of (rev (zip cl a)) c = None \<longleftrightarrow> c \<notin> fst ` set (zip cl a)"
  by (simp add: map_of_eq_None_iff)

lemma value_01:
  assumes "distinct cl" "set a \<subseteq> {0, 1}"
  shows "get_or_zero (map_of (rev (zip cl a))) c = (if c \<in> mines_of cl a then 1 else 0)"
proof (cases "map_of (rev (zip cl a)) c")
  case None
  then have "c \<notin> mines_of cl a"
    by (force simp: value_None mines_of_def)
  with None show ?thesis by (simp add: get_or_zero_def)
next
  case (Some v)
  then have in_zip: "(c, v) \<in> set (zip cl a)" using assms(1) by (simp add: value_Some)
  then have "v \<in> set a" by (rule set_zip_rightD)
  with assms(2) have v: "v = 0 \<or> v = 1" by auto
  have "c \<in> mines_of cl a \<longleftrightarrow> v = 1"
    using Some assms(1) value_Some [OF assms(1), of a c 1] by (auto simp: mines_of_def)
  with Some v show ?thesis by (auto simp: get_or_zero_def)
qed

lemma sum_value_01:
  assumes "distinct cl" "set a \<subseteq> {0, 1}" "finite L"
  shows "(\<Sum>cell \<in> L. get_or_zero (map_of (rev (zip cl a))) cell) = int (card (L \<inter> mines_of cl a))"
proof -
  have "(\<Sum>cell \<in> L. get_or_zero (map_of (rev (zip cl a))) cell) =
        (\<Sum>cell \<in> L. if cell \<in> mines_of cl a then 1 else 0)"
    by (rule sum.cong) (simp_all add: value_01 [OF assms(1,2)])
  also have "\<dots> = int (card (L \<inter> mines_of cl a))"
    using assms(3) by (simp add: sum.If_cases)
  finally show ?thesis .
qed

definition satisfies :: "constraint list \<Rightarrow> coord set \<Rightarrow> bool" where
  "satisfies constraints S \<longleftrightarrow> (\<forall>c \<in> set constraints. int (card (fst c \<inter> S)) = snd c)"

lemma check_constraints_iff:
  assumes "distinct cl" "set a \<subseteq> {0, 1}" "length a \<le> length cl" "\<forall>c \<in> set cs. finite (fst c)"
  shows "check_constraints a cl cs = Inr (satisfies cs (mines_of cl a))"
  using assms
  by (simp add: check_constraints_def cell_to_value_def satisfies_def list_all_iff sum_value_01)

lemma promising_of_solution:
  assumes "distinct cl" "set (p @ s) \<subseteq> {0, 1}" "length (p @ s) \<le> length cl" "\<forall>c \<in> set cs. finite (fst c)"
    and "check_constraints (p @ s) cl cs = Inr True"
  shows "is_promising p cl cs = Inr True"
proof -
  let ?mp = "map_of (rev (zip cl p))"
  have sat: "satisfies cs (mines_of cl (p @ s))"
    using check_constraints_iff [OF assms(1,2,3,4)] assms(5) by simp
  have "promising_constraint ?mp c" if c: "c \<in> set cs" for c
  proof -
    let ?L = "fst c"
    have fin: "finite ?L" using assms(4) c by blast
    have k: "int (card (?L \<inter> mines_of cl (p @ s))) = snd c"
      using sat c by (auto simp: satisfies_def)
    have 1: "{cell \<in> ?L. ?mp cell = Some 1} \<subseteq> ?L \<inter> mines_of cl (p @ s)"
      using zip_prefix [of cl p s] by (auto simp: value_Some [OF assms(1)] mines_of_def)
    have 2: "?L \<inter> mines_of cl (p @ s) \<subseteq> {cell \<in> ?L. ?mp cell = Some 1} \<union> {cell \<in> ?L. ?mp cell = None}"
    proof
      fix x assume x: "x \<in> ?L \<inter> mines_of cl (p @ s)"
      show "x \<in> {cell \<in> ?L. ?mp cell = Some 1} \<union> {cell \<in> ?L. ?mp cell = None}"
      proof (cases "?mp x")
        case None with x show ?thesis by simp
      next
        case (Some v)
        then have "(x, v) \<in> set (zip cl (p @ s))"
          using zip_prefix [of cl p s] by (auto simp: value_Some [OF assms(1)])
        moreover from x have "(x, 1) \<in> set (zip cl (p @ s))" by (simp add: mines_of_def)
        ultimately have "v = 1"
          using value_Some [OF assms(1), of "p @ s" x] by (metis option.inject)
        with Some x show ?thesis by simp
      qed
    qed
    have "card {cell \<in> ?L. ?mp cell = Some 1} \<le> card (?L \<inter> mines_of cl (p @ s))"
      using 1 fin by (intro card_mono) auto
    moreover have "card (?L \<inter> mines_of cl (p @ s)) \<le>
                   card ({cell \<in> ?L. ?mp cell = Some 1} \<union> {cell \<in> ?L. ?mp cell = None})"
      using 2 fin by (intro card_mono) auto
    moreover have "card ({cell \<in> ?L. ?mp cell = Some 1} \<union> {cell \<in> ?L. ?mp cell = None}) \<le>
                   card {cell \<in> ?L. ?mp cell = Some 1} + card {cell \<in> ?L. ?mp cell = None}"
      by (rule card_Un_le)
    ultimately show ?thesis
      using k by (simp add: promising_constraint_def Let_def)
  qed
  then show ?thesis
    using assms(3) by (simp add: is_promising_def cell_to_value_def list_all_iff)
qed


lemma fold_unchanged: "(\<And>x. x \<in> set xs \<Longrightarrow> f x t = t) \<Longrightarrow> fold f xs t = t"
  by (induction xs) auto

lemma check_constraints_total:
  "length a \<le> length cl \<Longrightarrow> \<exists>ok. check_constraints a cl cs = Inr ok"
  by (simp add: check_constraints_def cell_to_value_def)

lemma is_promising_total:
  "length a \<le> length cl \<Longrightarrow> \<exists>ok. is_promising a cl cs = Inr ok"
  by (simp add: is_promising_def cell_to_value_def)

lemma pruned_branch:
  assumes "distinct cl" "\<forall>c \<in> set cs. finite (fst c)" "set p \<subseteq> {0, 1}"
    "length p + k = length cl" "is_promising p cl cs = Inr False"
  shows "fold (visit cs cl) (map (\<lambda>s. p @ s) (all_assignments k)) t = t"
proof (rule fold_unchanged)
  fix x assume "x \<in> set (map (\<lambda>s. p @ s) (all_assignments k))"
  then obtain s where s: "x = p @ s" "s \<in> set (all_assignments k)" by auto
  with all_assignments_elem [OF s(2)] assms(3,4)
  have "set (p @ s) \<subseteq> {0, 1}" "length (p @ s) \<le> length cl" by auto
  with promising_of_solution [OF assms(1) _ _ assms(2), of p s] assms(5)
  have "check_constraints (p @ s) cl cs \<noteq> Inr True" by auto
  then show "visit cs cl x t = t" by (simp add: visit_def s(1))
qed

lemma backtrack_completions:
  assumes "distinct cl" "\<forall>c \<in> set cs. finite (fst c)"
  shows "set a \<subseteq> {0, 1} \<Longrightarrow> length a + k = length cl \<Longrightarrow>
         backtrack cs cl a t = Inr (fold (visit cs cl) (map (\<lambda>s. a @ s) (all_assignments k)) t)"
proof (induction k arbitrary: a t)
  case 0
  then obtain ok where "check_constraints a cl cs = Inr ok"
    using check_constraints_total [of a cl cs] by auto
  with 0 show ?case
    by (subst backtrack.simps) (auto simp: visit_def)
next
  case (Suc k)
  have branch: "(case is_promising (a @ [v]) cl cs of
                   Inl e \<Rightarrow> Inl e
                 | Inr ok \<Rightarrow> if ok then backtrack cs cl (a @ [v]) t' else Inr t') =
                Inr (fold (visit cs cl) (map (\<lambda>s. (a @ [v]) @ s) (all_assignments k)) t')"
    if v: "v = 0 \<or> v = 1" for v t'
  proof -
    have sub: "set (a @ [v]) \<subseteq> {0, 1}" and len: "length (a @ [v]) + k = length cl"
      using Suc.prems v by auto
    obtain ok where ok: "is_promising (a @ [v]) cl cs = Inr ok"
      using is_promising_total [of "a @ [v]" cl cs] len by auto
    show ?thesis
    proof (cases ok)
      case True
      with ok Suc.IH [OF sub len] show ?thesis by simp
    next
      case False
      with ok pruned_branch [OF assms sub len] show ?thesis by simp
    qed
  qed
  let ?rest = "\<lambda>v t'. fold (visit cs cl) (map (\<lambda>s. (a @ [v]) @ s) (all_assignments k)) t'"
  from Suc.prems have "length a \<noteq> length cl" by simp
  then have "backtrack cs cl a t =
     (case (case is_promising (a @ [0]) cl cs of
              Inl e \<Rightarrow> Inl e
            | Inr ok \<Rightarrow> if ok then backtrack cs cl (a @ [0]) t else Inr t) of
        Inl e \<Rightarrow> Inl e
      | Inr t' \<Rightarrow>
          (case is_promising (a @ [1]) cl cs of
             Inl e \<Rightarrow> Inl e
           | Inr ok \<Rightarrow> if ok then backtrack cs cl (a @ [1]) t' else Inr t'))"
    by (subst backtrack.simps) simp
  also have "\<dots> = Inr (?rest 1 (?rest 0 t))"
    by (simp only: branch [OF disjI1 [OF refl]] branch [OF disjI2 [OF refl]] sum.case)
  also have "?rest 1 (?rest 0 t) = fold (visit cs cl) (map (\<lambda>s. a @ s) (all_assignments (Suc k))) t"
    by (simp add: comp_def)
  finally show ?case .
qed

text \<open>
  Claim C3. For a region whose cells are listed in sorted order, the pruned search leaves
  exactly the tally (number of solutions, number of solutions per mine cell) that the
  naive enumeration of all \<open>2^n\<close> assignments, filtered by the exact check, leaves from
  the same start; and every prefix of a complete assignment that passes the exact check
  passes \<open>_is_promising\<close>, so that the search never abandons it.
\<close>

theorem backtrack_refines_naive:
  assumes "finite cells" and "\<forall>c \<in> set constraints. finite (fst c)"
    and "cells_list = sorted_list_of_set cells"
  shows "backtrack constraints cells_list [] t = Inr (naive_enumeration constraints cells_list t) \<and>
         (\<forall>a \<in> set (all_assignments (length cells_list)).
            check_constraints a cells_list constraints = Inr True \<longrightarrow>
            (\<forall>k \<le> length cells_list. is_promising (take k a) cells_list constraints = Inr True))"
proof
  have d: "distinct cells_list" using assms(3) by simp
  show "backtrack constraints cells_list [] t = Inr (naive_enumeration constraints cells_list t)"
    using backtrack_completions [OF d assms(2), of "[]" "length cells_list" t]
    by (simp add: naive_enumeration_def)
  show "\<forall>a \<in> set (all_assignments (length cells_list)).
            check_constraints a cells_list constraints = Inr True \<longrightarrow>
            (\<forall>k \<le> length cells_list. is_promising (take k a) cells_list constraints = Inr True)"
  proof (intro ballI impI allI)
    fix a k
    assume a: "a \<in> set (all_assignments (length cells_list))"
      and chk: "check_constraints a cells_list constraints = Inr True"
    from all_assignments_elem [OF a]
    have "set (take k a @ drop k a) \<subseteq> {0, 1}" "length (take k a @ drop k a) \<le> length cells_list"
      by auto
    from promising_of_solution [OF d this assms(2)] chk
    show "is_promising (take k a) cells_list constraints = Inr True" by simp
  qed
qed


text \<open>
  The probabilities as the specification words them: the satisfying assignments of a
  region are the sets of its cells that meet every constraint exactly; a cell's probability
  is the share of them that contain the cell, and one half when there is none.
\<close>

definition satisfying :: "constraint list \<Rightarrow> coord set \<Rightarrow> coord set set" where
  "satisfying constraints cells = {S \<in> Pow cells. satisfies constraints S}"

definition spec_probability :: "constraint list \<Rightarrow> coord set \<Rightarrow> coord \<Rightarrow> real" where
  "spec_probability constraints cells cell =
     (if satisfying constraints cells = {} then 1 / 2
      else real (card {S \<in> satisfying constraints cells. cell \<in> S}) /
           real (card (satisfying constraints cells)))"

lemma mines_of_Cons:
  "mines_of (x # xs) (v # a) = (if v = 1 then insert x (mines_of xs a) else mines_of xs a)"
  by (auto simp: mines_of_def)

lemma mines_of_subset: "mines_of xs a \<subseteq> set xs"
  by (auto simp: mines_of_def dest: set_zip_leftD)

lemma mines_of_enum:
  "distinct cl \<Longrightarrow>
   distinct (map (mines_of cl) (all_assignments (length cl))) \<and>
   set (map (mines_of cl) (all_assignments (length cl))) = Pow (set cl)"
proof (induction cl)
  case Nil
  show ?case by (simp add: mines_of_def)
next
  case (Cons x xs)
  define M where "M = map (mines_of xs) (all_assignments (length xs))"
  from Cons have IH: "distinct M" "set M = Pow (set xs)" and x: "x \<notin> set xs"
    by (auto simp: M_def)
  have m: "map (mines_of (x # xs)) (all_assignments (length (x # xs))) = M @ map (insert x) M"
    by (simp add: mines_of_Cons comp_def M_def)
  have inj: "inj_on (insert x) (set M)"
    unfolding IH(2) using x by (auto simp: inj_on_def)
  have "distinct (map (insert x) M)"
    using IH(1) inj by (simp add: distinct_map)
  moreover have "set M \<inter> set (map (insert x) M) = {}"
    unfolding set_map IH(2) using x by auto
  ultimately have "distinct (M @ map (insert x) M)"
    using IH(1) by simp
  moreover have "set (M @ map (insert x) M) = Pow (set (x # xs))"
    unfolding set_append set_map IH(2) by (simp add: Pow_insert)
  ultimately show ?case by (simp only: m)
qed

lemma count_distinct:
  "distinct zs \<Longrightarrow> length (filter (\<lambda>z. z = y) zs) = (if y \<in> set zs then 1 else 0)"
  by (induction zs) (auto simp: filter_empty_conv)

lemma card_filter_Pow:
  assumes "distinct cl"
  shows "card {S \<in> Pow (set cl). P S} =
         length (filter (\<lambda>a. P (mines_of cl a)) (all_assignments (length cl)))"
proof -
  let ?M = "map (mines_of cl) (all_assignments (length cl))"
  from mines_of_enum [OF assms] have d: "distinct ?M" and s: "set ?M = Pow (set cl)" by auto
  have "{S \<in> Pow (set cl). P S} = set (filter P ?M)"
    unfolding set_filter s by simp
  moreover have "card (set (filter P ?M)) = length (filter P ?M)"
    using d by (intro distinct_card) simp
  moreover have "length (filter P ?M) = length (filter (\<lambda>a. P (mines_of cl a)) (all_assignments (length cl)))"
    by (simp add: filter_map comp_def)
  ultimately show ?thesis by (simp only:)
qed

lemma count_fold:
  "total_solutions (fold (\<lambda>(cell, v) t. if v = 1 then t\<lparr>mine_counts := (mine_counts t)(cell := mine_counts t cell + 1)\<rparr> else t) zs t)
     = total_solutions t \<and>
   mine_counts (fold (\<lambda>(cell, v) t. if v = 1 then t\<lparr>mine_counts := (mine_counts t)(cell := mine_counts t cell + 1)\<rparr> else t) zs t) c
     = mine_counts t c + length (filter (\<lambda>z. z = (c, 1)) zs)"
  by (induction zs arbitrary: t) (auto split: prod.splits)

lemma count_solution_tally:
  assumes "distinct cl"
  shows "total_solutions (count_solution cl a t) = total_solutions t + 1"
    and "mine_counts (count_solution cl a t) c = mine_counts t c + (if c \<in> mines_of cl a then 1 else 0)"
proof -
  show "total_solutions (count_solution cl a t) = total_solutions t + 1"
    by (simp add: count_solution_def count_fold)
  have "distinct (zip cl a)" using assms by (rule distinct_zipI1)
  then have "length (filter (\<lambda>z. z = (c, 1)) (zip cl a)) = (if (c, 1) \<in> set (zip cl a) then 1 else 0)"
    by (rule count_distinct)
  then show "mine_counts (count_solution cl a t) c = mine_counts t c + (if c \<in> mines_of cl a then 1 else 0)"
    by (simp add: count_solution_def count_fold mines_of_def)
qed

lemma visit_fold_tally:
  assumes "distinct cl"
  shows "total_solutions (fold (visit cs cl) as t) =
           total_solutions t + length (filter (\<lambda>a. check_constraints a cl cs = Inr True) as)"
    and "mine_counts (fold (visit cs cl) as t) c =
           mine_counts t c +
           length (filter (\<lambda>a. check_constraints a cl cs = Inr True \<and> c \<in> mines_of cl a) as)"
  by (induction as arbitrary: t) (simp_all add: visit_def count_solution_tally [OF assms])



lemma sorted_three: "sorted_list_of_set {(0, 0), (0, 1), (0, 2 :: int) :: coord} = [(0, 0), (0, 1), (0, 2)]"
  by code_simp

theorem backtrack_refines_naive_witness:
  "finite {(0, 0), (0, 1), (0, 2 :: int) :: coord} \<and>
   [0, 1, 0] \<in> set (all_assignments 3) \<and>
   check_constraints [0, 1, 0] [(0, 0), (0, 1), (0, 2)] [({(0, 0), (0, 1), (0, 2)}, 1)] = Inr True \<and>
   is_promising (take 2 [0, 1, 0]) [(0, 0), (0, 1), (0, 2)] [({(0, 0), (0, 1), (0, 2)}, 1)] = Inr True \<and>
   backtrack [({(0, 0), (0, 1), (0, 2)}, 1)] [(0, 0), (0, 1), (0, 2)] []
       \<lparr>total_solutions = 0, mine_counts = (\<lambda>cell. 0)\<rparr> =
     Inr (naive_enumeration [({(0, 0), (0, 1), (0, 2)}, 1)] [(0, 0), (0, 1), (0, 2)]
       \<lparr>total_solutions = 0, mine_counts = (\<lambda>cell. 0)\<rparr>)"
proof -
  have a: "[0, 1, 0] \<in> set (all_assignments 3)"
    by code_simp
  have c: "check_constraints [0, 1, 0] [(0, 0), (0, 1), (0, 2)] [({(0, 0), (0, 1), (0, 2)}, 1)] = Inr True"
    by code_simp
  have l: "[(0, 0), (0, 1), (0, 2)] = sorted_list_of_set {(0, 0), (0, 1), (0, 2 :: int) :: coord}"
    by (simp only: sorted_three)
  have f: "finite {(0, 0), (0, 1), (0, 2 :: int) :: coord}"
    "\<forall>c \<in> set [({(0, 0), (0, 1), (0, 2 :: int) :: coord}, 1 :: int)]. finite (fst c)"
    by simp_all
  note th = backtrack_refines_naive [OF f l, of "\<lparr>total_solutions = 0, mine_counts = (\<lambda>cell. 0)\<rparr>"]
  have "is_promising (take 2 [0, 1, 0]) [(0, 0), (0, 1), (0, 2)] [({(0, 0), (0, 1), (0, 2)}, 1)] = Inr True"
    using th [THEN conjunct2, rule_format, of "[0, 1, 0]" 2] a c by simp
  with th [THEN conjunct1] a c f(1) show ?thesis by simp
qed


section \<open>The probabilities against the specification\<close>



lemma backtrack_tally:
  assumes "finite cells" "\<forall>c \<in> set cs. finite (fst c)"
  defines "cl \<equiv> sorted_list_of_set cells"
  shows "\<exists>t. backtrack cs cl [] \<lparr>total_solutions = 0, mine_counts = (\<lambda>cell. 0)\<rparr> = Inr t \<and>
             total_solutions t = card (satisfying cs cells) \<and>
             (\<forall>cell. mine_counts t cell = card {S \<in> satisfying cs cells. cell \<in> S})"
proof -
  let ?t0 = "\<lparr>total_solutions = 0, mine_counts = (\<lambda>cell. 0)\<rparr>"
  let ?A = "all_assignments (length cl)"
  have d: "distinct cl" and s: "set cl = cells"
    using assms(1) by (simp_all add: cl_def)
  have bt: "backtrack cs cl [] ?t0 = Inr (fold (visit cs cl) ?A ?t0)"
    using backtrack_completions [OF d assms(2), of "[]" "length cl" ?t0] by simp
  have chk: "check_constraints a cl cs = Inr True \<longleftrightarrow> satisfies cs (mines_of cl a)" if "a \<in> set ?A" for a
    using check_constraints_iff [OF d _ _ assms(2), of a] all_assignments_elem [OF that] by simp
  have "length (filter (\<lambda>a. check_constraints a cl cs = Inr True) ?A) =
        length (filter (\<lambda>a. satisfies cs (mines_of cl a)) ?A)"
    by (rule arg_cong [where f = length], rule filter_cong) (simp_all add: chk)
  also have "\<dots> = card {S \<in> Pow (set cl). satisfies cs S}"
    by (rule card_filter_Pow [OF d, symmetric])
  finally have total: "total_solutions (fold (visit cs cl) ?A ?t0) = card (satisfying cs cells)"
    by (simp add: visit_fold_tally(1) [OF d] satisfying_def s)
  have mines: "mine_counts (fold (visit cs cl) ?A ?t0) cell = card {S \<in> satisfying cs cells. cell \<in> S}" for cell
  proof -
    have "length (filter (\<lambda>a. check_constraints a cl cs = Inr True \<and> cell \<in> mines_of cl a) ?A) =
          length (filter (\<lambda>a. satisfies cs (mines_of cl a) \<and> cell \<in> mines_of cl a) ?A)"
      by (rule arg_cong [where f = length], rule filter_cong) (simp_all add: chk)
    also have "\<dots> = card {S \<in> Pow (set cl). satisfies cs S \<and> cell \<in> S}"
      by (rule card_filter_Pow [OF d, symmetric])
    also have "{S \<in> Pow (set cl). satisfies cs S \<and> cell \<in> S} = {S \<in> satisfying cs cells. cell \<in> S}"
      by (auto simp: satisfying_def s)
    finally show ?thesis
      by (simp add: visit_fold_tally(2) [OF d])
  qed
  from bt total mines show ?thesis by simp
qed

lemma calculate_probabilities_spec:
  assumes "finite cells" "\<forall>c \<in> set cs. finite (fst c)"
  shows "calculate_probabilities cs cells =
           Inr (\<lambda>cell. if cell \<in> cells then Some (spec_probability cs cells cell) else None)"
proof (cases "cells = {}")
  case True
  then show ?thesis by (simp add: calculate_probabilities_def)
next
  case False
  then have n: "length (sorted_list_of_set cells) \<noteq> 0"
    using assms(1) by simp
  from backtrack_tally [OF assms] obtain t where
    t: "backtrack cs (sorted_list_of_set cells) [] \<lparr>total_solutions = 0, mine_counts = (\<lambda>cell. 0)\<rparr> = Inr t"
    "total_solutions t = card (satisfying cs cells)"
    "\<And>cell. mine_counts t cell = card {S \<in> satisfying cs cells. cell \<in> S}"
    by blast
  have fin: "finite (satisfying cs cells)"
    using assms(1) by (simp add: satisfying_def)
  then have z: "card (satisfying cs cells) = 0 \<longleftrightarrow> satisfying cs cells = {}"
    by simp
  have calc: "calculate_probabilities cs cells =
     (if card (satisfying cs cells) = 0
      then Inr (\<lambda>cell. if cell \<in> cells then Some (1 / 2) else None)
      else Inr (\<lambda>cell. if cell \<in> cells
                         then Some (real (card {S \<in> satisfying cs cells. cell \<in> S}) /
                                    real (card (satisfying cs cells)))
                         else None))"
    unfolding calculate_probabilities_def Let_def
    using n by (simp only: t if_False sum.case)
  show ?thesis
  proof (cases "satisfying cs cells = {}")
    case True
    then have "spec_probability cs cells = (\<lambda>cell. 1 / 2)"
      by (simp add: spec_probability_def fun_eq_iff)
    with calc True show ?thesis by (simp cong: if_cong)
  next
    case False
    then have "spec_probability cs cells =
                 (\<lambda>cell. real (card {S \<in> satisfying cs cells. cell \<in> S}) /
                          real (card (satisfying cs cells)))"
      by (simp add: spec_probability_def fun_eq_iff)
    with calc z False show ?thesis by (simp cong: if_cong)
  qed
qed

lemma satisfying_one_of_three:
  assumes "a \<noteq> b" "a \<noteq> c" "b \<noteq> c"
  shows "satisfying [({a, b, c}, 1)] {a, b, c} = {{a}, {b}, {c}}"
proof (rule set_eqI)
  fix S
  have mem: "S \<in> satisfying [({a, b, c}, 1)] {a, b, c} \<longleftrightarrow> S \<subseteq> {a, b, c} \<and> card ({a, b, c} \<inter> S) = 1"
    by (simp add: satisfying_def satisfies_def)
  show "S \<in> satisfying [({a, b, c}, 1)] {a, b, c} \<longleftrightarrow> S \<in> {{a}, {b}, {c}}"
  proof
    assume "S \<in> satisfying [({a, b, c}, 1)] {a, b, c}"
    with mem have sub: "S \<subseteq> {a, b, c}" and "card ({a, b, c} \<inter> S) = 1" by simp_all
    moreover from sub have "{a, b, c} \<inter> S = S" by blast
    ultimately have "card S = 1" by simp
    then obtain x where x: "S = {x}" by (auto simp: card_1_singleton_iff)
    with sub have "x = a \<or> x = b \<or> x = c" by simp
    with x show "S \<in> {{a}, {b}, {c}}" by blast
  next
    assume "S \<in> {{a}, {b}, {c}}"
    then have "S = {a} \<or> S = {b} \<or> S = {c}" by simp
    then have "S \<subseteq> {a, b, c} \<and> card ({a, b, c} \<inter> S) = 1"
      by (elim disjE) simp_all
    with mem show "S \<in> satisfying [({a, b, c}, 1)] {a, b, c}" by simp
  qed
qed

lemma probability_one_of_three:
  assumes "a \<noteq> b" "a \<noteq> c" "b \<noteq> c"
  shows "calculate_probabilities [({a, b, c}, 1)] {a, b, c} =
           Inr (\<lambda>cell. if cell \<in> {a, b, c} then Some (1 / 3) else None)"
proof -
  have "spec_probability [({a, b, c}, 1)] {a, b, c} cell = 1 / 3" if "cell \<in> {a, b, c}" for cell
  proof -
    have "{S \<in> {{a}, {b}, {c}}. cell \<in> S} = {{cell}}"
      using that assms by (elim insertE emptyE) auto
    moreover have "card {{a}, {b}, {c}} = 3"
      using assms by simp
    ultimately show ?thesis
      by (simp add: spec_probability_def satisfying_one_of_three [OF assms])
  qed
  then have "(\<lambda>cell. if cell \<in> {a, b, c} then Some (spec_probability [({a, b, c}, 1)] {a, b, c} cell) else None) =
             (\<lambda>cell. if cell \<in> {a, b, c} then Some (1 / 3) else None)"
    by auto
  then show ?thesis
    using calculate_probabilities_spec [of "{a, b, c}" "[({a, b, c}, 1)]"] by simp
qed



text \<open>
  Claim C2. For a region with finitely many cells and constraints over finite cell sets,
  \<open>_calculate_probabilities\<close> returns a dictionary whose keys are the cells of the region.
  If some assignment satisfies every constraint exactly, the value of a cell is the number
  of satisfying assignments that make it a mine divided by the number of satisfying
  assignments; if none does, every value is one half. A single constraint over three
  cells with required count 1 gives each of the three the value one third. (Python divides
  two integers into the float nearest to the quotient; the model keeps the quotient.)
\<close>

theorem calculate_probabilities_exact:
  assumes "finite cells" and "\<forall>c \<in> set constraints. finite (fst c)"
  shows "(satisfying constraints cells \<noteq> {} \<longrightarrow>
            calculate_probabilities constraints cells =
              Inr (\<lambda>cell. if cell \<in> cells
                           then Some (real (card {S \<in> satisfying constraints cells. cell \<in> S}) /
                                      real (card (satisfying constraints cells)))
                           else None)) \<and>
         (satisfying constraints cells = {} \<longrightarrow>
            calculate_probabilities constraints cells =
              Inr (\<lambda>cell. if cell \<in> cells then Some (1 / 2) else None)) \<and>
         (\<forall>a b c. a \<noteq> b \<and> a \<noteq> c \<and> b \<noteq> c \<longrightarrow>
            calculate_probabilities [({a, b, c}, 1)] {a, b, c} =
              Inr (\<lambda>cell. if cell \<in> {a, b, c} then Some (1 / 3) else None))"
proof (intro conjI impI allI)
  assume ne: "satisfying constraints cells \<noteq> {}"
  then have "spec_probability constraints cells cell =
               real (card {S \<in> satisfying constraints cells. cell \<in> S}) /
               real (card (satisfying constraints cells))" for cell
    by (simp add: spec_probability_def)
  with calculate_probabilities_spec [OF assms]
  show "calculate_probabilities constraints cells =
              Inr (\<lambda>cell. if cell \<in> cells
                           then Some (real (card {S \<in> satisfying constraints cells. cell \<in> S}) /
                                      real (card (satisfying constraints cells)))
                           else None)"
    by (simp cong: if_cong)
next
  assume "satisfying constraints cells = {}"
  then have "spec_probability constraints cells cell = 1 / 2" for cell
    by (simp add: spec_probability_def)
  with calculate_probabilities_spec [OF assms]
  show "calculate_probabilities constraints cells =
              Inr (\<lambda>cell. if cell \<in> cells then Some (1 / 2) else None)"
    by (simp cong: if_cong)
next
  fix a b c :: coord
  assume "a \<noteq> b \<and> a \<noteq> c \<and> b \<noteq> c"
  then show "calculate_probabilities [({a, b, c}, 1)] {a, b, c} =
              Inr (\<lambda>cell. if cell \<in> {a, b, c} then Some (1 / 3) else None)"
    using probability_one_of_three [of a b c] by simp
qed

theorem calculate_probabilities_exact_witness:
  "finite {(0, 0), (0, 1), (0, 2 :: int) :: coord} \<and>
   {(0, 1)} \<in> satisfying [({(0, 0), (0, 1), (0, 2)}, 1)] {(0, 0), (0, 1), (0, 2)} \<and>
   calculate_probabilities [({(0, 0), (0, 1), (0, 2)}, 1)] {(0, 0), (0, 1), (0, 2)} =
     Inr (\<lambda>cell. if cell \<in> {(0, 0), (0, 1), (0, 2)} then Some (1 / 3) else None)"
proof -
  have f: "finite {(0, 0), (0, 1), (0, 2 :: int) :: coord}"
    "\<forall>c \<in> set [({(0, 0), (0, 1), (0, 2 :: int) :: coord}, 1 :: int)]. finite (fst c)"
    by simp_all
  have s: "{(0, 1)} \<in> satisfying [({(0, 0), (0, 1), (0, 2)}, 1)] {(0, 0), (0, 1), (0, 2)}"
    by (simp add: satisfying_def satisfies_def)
  from calculate_probabilities_exact [OF f, THEN conjunct2, THEN conjunct2, rule_format,
      of "(0, 0)" "(0, 1)" "(0, 2)"] f(1) s
  show ?thesis by simp
qed


section \<open>The disjoint sets (class UnionFind)\<close>

text \<open>
  The two dictionaries of a \<open>UnionFind\<close>, each as the list of its items in the order
  of insertion, which is the order in which Python iterates over a dictionary.
\<close>

record union_find =
  parent :: "(coord \<times> coord) list"
  rank :: "(coord \<times> int) list"

definition add :: "union_find \<Rightarrow> coord \<Rightarrow> union_find" where
  "add uf item =
     (if map_of (parent uf) item = None
      then uf\<lparr>parent := AList.update item item (parent uf),
              rank := AList.update item 0 (rank uf)\<rparr>
      else uf)"

text \<open>
  \<open>find\<close> calls itself along the parent entries. Nothing in it bounds the recursion:
  Python ends it with \<open>RecursionError\<close> when the depth reaches the interpreter's limit.
  The first argument is the depth that is left.
\<close>

fun find_uf :: "nat \<Rightarrow> union_find \<Rightarrow> coord \<Rightarrow> error + union_find \<times> coord" where
  "find_uf 0 uf item = Inl RecursionError"
| "find_uf (Suc depth) uf item =
     (let uf = (if map_of (parent uf) item = None then add uf item else uf)
      in case map_of (parent uf) item of
           None \<Rightarrow> Inl KeyError
         | Some p \<Rightarrow>
             if p \<noteq> item then
               (case find_uf depth uf p of
                  Inl e \<Rightarrow> Inl e
                | Inr (uf, found) \<Rightarrow> Inr (uf\<lparr>parent := AList.update item found (parent uf)\<rparr>, found))
             else Inr (uf, p))"

definition union_uf :: "nat \<Rightarrow> union_find \<Rightarrow> coord \<Rightarrow> coord \<Rightarrow> error + union_find" where
  "union_uf depth uf item1 item2 =
     (case find_uf depth uf item1 of
        Inl e \<Rightarrow> Inl e
      | Inr (uf, root1) \<Rightarrow>
          (case find_uf depth uf item2 of
             Inl e \<Rightarrow> Inl e
           | Inr (uf, root2) \<Rightarrow>
               if root1 = root2 then Inr uf
               else
                 (case (map_of (rank uf) root1, map_of (rank uf) root2) of
                    (Some rank1, Some rank2) \<Rightarrow>
                      if rank1 < rank2
                      then Inr (uf\<lparr>parent := AList.update root1 root2 (parent uf)\<rparr>)
                      else if rank1 > rank2
                      then Inr (uf\<lparr>parent := AList.update root2 root1 (parent uf)\<rparr>)
                      else Inr (uf\<lparr>parent := AList.update root2 root1 (parent uf),
                                    rank := AList.update root1 (rank1 + 1) (rank uf)\<rparr>)
                  | _ \<Rightarrow> Inl KeyError)))"

text \<open>A loop whose body may raise: the first error ends it.\<close>

fun for_each :: "('a \<Rightarrow> 's \<Rightarrow> error + 's) \<Rightarrow> 'a list \<Rightarrow> 's \<Rightarrow> error + 's" where
  "for_each body [] s = Inr s"
| "for_each body (x # xs) s = (case body x s of Inl e \<Rightarrow> Inl e | Inr s' \<Rightarrow> for_each body xs s')"

text \<open>
  \<open>get_groups\<close>: for every key of \<open>parent\<close>, in order, find the root and put the key into
  the found's set. The state is the structure and the dictionary of the groups.
\<close>

definition get_groups_step ::
  "nat \<Rightarrow> coord \<Rightarrow> union_find \<times> (coord \<times> coord set) list \<Rightarrow>
     error + union_find \<times> (coord \<times> coord set) list" where
  "get_groups_step depth item s =
     (case find_uf depth (fst s) item of
        Inl e \<Rightarrow> Inl e
      | Inr (uf, found) \<Rightarrow>
          let groups = (if map_of (snd s) found = None then AList.update found {} (snd s) else snd s)
          in Inr (uf, AList.update found (insert item (the (map_of groups found))) groups))"

definition get_groups ::
  "nat \<Rightarrow> union_find \<Rightarrow> error + union_find \<times> (coord \<times> coord set) list" where
  "get_groups depth uf = for_each (get_groups_step depth) (map fst (parent uf)) (uf, [])"

section \<open>The independent regions (Solver._find_independent_regions)\<close>

text \<open>
  Here the order in which Python iterates over the cells of a constraint matters: it
  decides the unions and the representative. A constraint is therefore given with its
  cells listed in that order; the frozenset is the set of the list.
\<close>

type_synonym listed_constraint = "coord list \<times> int"

text \<open>\<open>for j in range(len(cells_list) - 1): uf.union(cells_list[j], cells_list[j + 1])\<close>.\<close>

fun union_chain :: "nat \<Rightarrow> coord list \<Rightarrow> union_find \<Rightarrow> error + union_find" where
  "union_chain depth (a # b # rest) uf =
     (case union_uf depth uf a b of Inl e \<Rightarrow> Inl e | Inr uf' \<Rightarrow> union_chain depth (b # rest) uf')"
| "union_chain depth cells uf = Inr uf"

text \<open>The body of the last loop: the representative of the first cell, and the
  constraint appended to the list of that representative.\<close>

definition assign_region ::
  "nat \<Rightarrow> listed_constraint \<Rightarrow> union_find \<times> (coord \<times> listed_constraint list) list \<Rightarrow>
     error + union_find \<times> (coord \<times> listed_constraint list) list" where
  "assign_region depth c s =
     (case fst c of
        [] \<Rightarrow> Inl StopIteration
      | first # _ \<Rightarrow>
          (case find_uf depth (fst s) first of
             Inl e \<Rightarrow> Inl e
           | Inr (uf, representative) \<Rightarrow>
               let regions = (if map_of (snd s) representative = None
                              then AList.update representative [] (snd s) else snd s)
               in Inr (uf, AList.update representative
                             (the (map_of regions representative) @ [c]) regions)))"

definition find_independent_regions ::
  "nat \<Rightarrow> listed_constraint list \<Rightarrow> error + listed_constraint list list" where
  "find_independent_regions depth constraints =
     (if constraints = [] then Inr []
      else
        let uf = fold (\<lambda>c uf. fold (\<lambda>cell uf. add uf cell) (fst c) uf) constraints
                   \<lparr>parent = [], rank = []\<rparr>
        in case for_each (\<lambda>c. union_chain depth (fst c)) constraints uf of
             Inl e \<Rightarrow> Inl e
           | Inr uf \<Rightarrow>
               (case get_groups depth uf of
                  Inl e \<Rightarrow> Inl e
                | Inr (uf, groups) \<Rightarrow>
                    (case for_each (assign_region depth) constraints (uf, []) of
                       Inl e \<Rightarrow> Inl e
                     | Inr (uf, region_to_constraints) \<Rightarrow> Inr (map snd region_to_constraints))))"



section \<open>The regions are a partition\<close>

text \<open>
  The two dictionaries as maps; the representative of an item is the root that its parent
  entries lead to; two items are in the same set when they have the same representative.
  The invariant: every parent is a key, every key has a rank, ranks grow strictly along
  parent entries and lie between 0 and \<open>K\<close>.
\<close>

definition parent_of :: "union_find \<Rightarrow> coord \<rightharpoonup> coord" where
  "parent_of uf = map_of (parent uf)"

definition rank_of :: "union_find \<Rightarrow> coord \<rightharpoonup> int" where
  "rank_of uf = map_of (rank uf)"

definition edges :: "union_find \<Rightarrow> (coord \<times> coord) set" where
  "edges uf = {(x, y). parent_of uf x = Some y}"

definition rep :: "union_find \<Rightarrow> coord \<Rightarrow> coord \<Rightarrow> bool" where
  "rep uf x r \<longleftrightarrow> (x, r) \<in> (edges uf)\<^sup>* \<and> parent_of uf r = Some r"

definition same :: "union_find \<Rightarrow> coord \<Rightarrow> coord \<Rightarrow> bool" where
  "same uf x y \<longleftrightarrow> (\<exists>r. rep uf x r \<and> rep uf y r)"

definition uf_inv :: "int \<Rightarrow> union_find \<Rightarrow> bool" where
  "uf_inv K uf \<longleftrightarrow>
     (\<forall>x y. parent_of uf x = Some y \<longrightarrow> parent_of uf y \<noteq> None) \<and>
     (\<forall>x. parent_of uf x \<noteq> None \<longrightarrow> rank_of uf x \<noteq> None) \<and>
     (\<forall>x y kx ky. parent_of uf x = Some y \<and> y \<noteq> x \<and> rank_of uf x = Some kx \<and>
                   rank_of uf y = Some ky \<longrightarrow> kx < ky) \<and>
     (\<forall>x k. rank_of uf x = Some k \<longrightarrow> 0 \<le> k \<and> k \<le> K)"

lemma root_stays: "(x, y) \<in> (edges uf)\<^sup>* \<Longrightarrow> parent_of uf x = Some x \<Longrightarrow> y = x"
  by (induction rule: rtrancl_induct) (auto simp: edges_def)

lemma rep_step_iff:
  assumes "parent_of uf x = Some y"
  shows "rep uf x r \<longleftrightarrow> rep uf y r"
proof
  assume "rep uf y r"
  with assms show "rep uf x r"
    by (auto simp: rep_def edges_def intro: converse_rtrancl_into_rtrancl)
next
  assume r: "rep uf x r"
  then have "(x, r) \<in> (edges uf)\<^sup>*" by (simp add: rep_def)
  then show "rep uf y r"
  proof (cases rule: converse_rtranclE)
    case base
    with r assms show ?thesis by (auto simp: rep_def)
  next
    case (step z)
    with assms have "z = y" by (simp add: edges_def)
    with step r show ?thesis by (simp add: rep_def)
  qed
qed

lemma rep_root: "parent_of uf x = Some x \<Longrightarrow> rep uf x x"
  by (simp add: rep_def)

lemma rep_unique: "rep uf x r1 \<Longrightarrow> rep uf x r2 \<Longrightarrow> r1 = r2"
proof -
  assume 1: "rep uf x r1" and 2: "rep uf x r2"
  from 1 have "(x, r1) \<in> (edges uf)\<^sup>*" by (simp add: rep_def)
  then show ?thesis using 1 2
  proof (induction rule: converse_rtrancl_induct)
    case base
    then show ?case using root_stays [of r1 r2 uf] by (simp add: rep_def)
  next
    case (step a b)
    then have "parent_of uf a = Some b" by (simp add: edges_def)
    with step show ?case by (simp add: rep_step_iff)
  qed
qed

lemma rep_dom: "rep uf x r \<Longrightarrow> parent_of uf r = Some r"
  by (simp add: rep_def)

text \<open>Path compression and linking keep the representatives.\<close>

lemma compress:
  assumes "rep uf x r" "parent_of uf' = (parent_of uf)(x \<mapsto> r)"
  shows "rep uf' y q \<longleftrightarrow> rep uf y q"
proof
  assume "rep uf' y q"
  then have p: "(y, q) \<in> (edges uf')\<^sup>*" and q: "parent_of uf' q = Some q" by (simp_all add: rep_def)
  have "edges uf' \<subseteq> (edges uf)\<^sup>*"
    using assms by (auto simp: edges_def rep_def split: if_splits)
  then have "(edges uf')\<^sup>* \<subseteq> (edges uf)\<^sup>*" by (rule rtrancl_subset_rtrancl)
  with p have "(y, q) \<in> (edges uf)\<^sup>*" by blast
  moreover have "parent_of uf q = Some q"
  proof (cases "q = x")
    case True
    with q assms(2) have "r = x" by simp
    with assms(1) True show ?thesis by (simp add: rep_def)
  next
    case False
    with q assms(2) show ?thesis by simp
  qed
  ultimately show "rep uf y q" by (simp add: rep_def)
next
  assume yq: "rep uf y q"
  then have "(y, q) \<in> (edges uf)\<^sup>*" by (simp add: rep_def)
  then show "rep uf' y q" using yq
  proof (induction rule: converse_rtrancl_induct)
    case base
    then have "parent_of uf q = Some q" by (simp add: rep_def)
    moreover have "r = x" if "q = x"
      using that assms(1) base rep_unique by blast
    ultimately have "parent_of uf' q = Some q" using assms(2) by auto
    then show ?case by (rule rep_root)
  next
    case (step a b)
    then have ab: "parent_of uf a = Some b" by (simp add: edges_def)
    with step have b: "rep uf' b q" by (simp add: rep_step_iff)
    show ?case
    proof (cases "a = x")
      case True
      with step.prems assms(1) have "q = r" using rep_unique by blast
      moreover have "rep uf' r r"
        using b step.prems assms rep_unique
        by (metis (no_types, lifting) ab \<open>q = r\<close> fun_upd_apply rep_dom rep_root rep_step_iff)
      moreover have "parent_of uf' x = Some r" using assms(2) by simp
      ultimately show ?thesis using True by (simp add: rep_step_iff)
    next
      case False
      with ab assms(2) have "parent_of uf' a = Some b" by simp
      with b show ?thesis by (simp add: rep_step_iff)
    qed
  qed
qed

lemma link:
  assumes "parent_of uf r1 = Some r1" "parent_of uf r2 = Some r2" "r1 \<noteq> r2"
    "parent_of uf' = (parent_of uf)(r2 \<mapsto> r1)" "rep uf y q"
  shows "rep uf' y (if q = r2 then r1 else q)"
proof -
  have r1: "rep uf' r1 r1" using assms by (intro rep_root) simp
  have r2: "rep uf' r2 r1" using assms r1 by (simp add: rep_step_iff [of uf' r2 r1])
  from assms(5) have "(y, q) \<in> (edges uf)\<^sup>*" by (simp add: rep_def)
  then show ?thesis using assms(5)
  proof (induction rule: converse_rtrancl_induct)
    case base
    then have "parent_of uf q = Some q" by (simp add: rep_def)
    with assms(4) r2 show ?case by (auto intro: rep_root)
  next
    case (step a b)
    then have ab: "parent_of uf a = Some b" by (simp add: edges_def)
    with step have b: "rep uf' b (if q = r2 then r1 else q)" by (simp add: rep_step_iff)
    show ?case
    proof (cases "a = r2")
      case True
      with ab assms(2) have "b = a" by simp
      with b show ?thesis by simp
    next
      case False
      with ab assms(4) have "parent_of uf' a = Some b" by simp
      with b show ?thesis by (simp add: rep_step_iff)
    qed
  qed
qed


lemma uf_inv_mono: "uf_inv K uf \<Longrightarrow> K \<le> K' \<Longrightarrow> uf_inv K' uf"
  unfolding uf_inv_def by (meson order_trans)

lemma uf_inv_rank:
  "uf_inv K uf \<Longrightarrow> parent_of uf x \<noteq> None \<Longrightarrow> \<exists>k. rank_of uf x = Some k \<and> 0 \<le> k \<and> k \<le> K"
  unfolding uf_inv_def by (metis not_None_eq)

lemma rank_path:
  assumes "uf_inv K uf" "(x, r) \<in> (edges uf)\<^sup>*" "rank_of uf x = Some kx" "rank_of uf r = Some kr"
  shows "kx \<le> kr \<and> (x \<noteq> r \<longrightarrow> kx < kr)"
  using assms(2,3)
proof (induction arbitrary: kx rule: converse_rtrancl_induct)
  case base
  with assms(4) show ?case by simp
next
  case (step a b)
  then have ab: "parent_of uf a = Some b" by (simp add: edges_def)
  then have "parent_of uf b \<noteq> None" using assms(1) unfolding uf_inv_def by blast
  then obtain kb where kb: "rank_of uf b = Some kb"
    using uf_inv_rank [OF assms(1)] by blast
  from step.IH [OF kb] have le: "kb \<le> kr" by simp
  show ?case
  proof (cases "b = a")
    case True
    with kb step.prems step.IH [OF kb] show ?thesis by auto
  next
    case False
    with ab kb step.prems assms(1) have "kx < kb" unfolding uf_inv_def by blast
    with le show ?thesis by simp
  qed
qed

lemma find_ok:
  "uf_inv K uf \<Longrightarrow> parent_of uf x \<noteq> None \<Longrightarrow> rank_of uf x = Some k \<Longrightarrow> nat (K - k) < depth \<Longrightarrow>
   \<exists>uf' r. find_uf depth uf x = Inr (uf', r) \<and> rep uf x r \<and> uf_inv K uf' \<and>
           (\<forall>y q. rep uf' y q \<longleftrightarrow> rep uf y q) \<and> rank uf' = rank uf \<and>
           map fst (parent uf') = map fst (parent uf)"
proof (induction depth arbitrary: uf x k)
  case 0
  then show ?case by simp
next
  case (Suc depth)
  from Suc.prems(2) obtain p where p: "parent_of uf x = Some p" by blast
  then have mp: "map_of (parent uf) x = Some p" by (simp add: parent_of_def)
  show ?case
  proof (cases "p = x")
    case True
    with mp p Suc.prems(1) show ?thesis by (auto intro: rep_root)
  next
    case False
    from p Suc.prems(1) have pd: "parent_of uf p \<noteq> None" unfolding uf_inv_def by blast
    then obtain kp where kp: "rank_of uf p = Some kp" "kp \<le> K"
      using uf_inv_rank [OF Suc.prems(1)] by blast
    from p False kp(1) Suc.prems(1,3) have "k < kp" unfolding uf_inv_def by blast
    with Suc.prems(4) kp(2) have "nat (K - kp) < depth" by linarith
    from Suc.IH [OF Suc.prems(1) pd kp(1) this] obtain uf2 r where
      f: "find_uf depth uf p = Inr (uf2, r)" and rp: "rep uf p r" and inv2: "uf_inv K uf2"
      and eq: "\<And>y q. rep uf2 y q \<longleftrightarrow> rep uf y q" and rk: "rank uf2 = rank uf"
      and keys: "map fst (parent uf2) = map fst (parent uf)"
      by blast
    define uf3 where "uf3 = uf2\<lparr>parent := AList.update x r (parent uf2)\<rparr>"
    have res: "find_uf (Suc depth) uf x = Inr (uf3, r)"
      using mp False f by (simp add: uf3_def)
    have xr: "rep uf x r" using p rp by (simp add: rep_step_iff)
    then have xr2: "rep uf2 x r" by (simp add: eq)
    have p3: "parent_of uf3 = (parent_of uf2)(x \<mapsto> r)"
      by (simp add: uf3_def parent_of_def update_conv')
    have eq3: "rep uf3 y q \<longleftrightarrow> rep uf y q" for y q
      using compress [OF xr2 p3] eq by simp
    have r3: "rank_of uf3 = rank_of uf" "rank_of uf2 = rank_of uf"
      by (simp_all add: uf3_def rank_of_def rk)
    have "x \<in> set (map fst (parent uf))"
      using mp map_of_eq_None_iff [of "parent uf" x] by simp
    then have "x \<in> set (map fst (parent uf2))" by (simp only: keys)
    then have keys3: "map fst (parent uf3) = map fst (parent uf)"
      by (simp add: uf3_def update_keys keys del: set_map)
    have rr: "parent_of uf2 r = Some r" using xr2 by (rule rep_dom)
    have lt: "k < kr" if "rank_of uf r = Some kr" for kr
    proof -
      from xr have "(x, r) \<in> (edges uf)\<^sup>*" "parent_of uf r = Some r" by (simp_all add: rep_def)
      moreover from this(2) p False have "x \<noteq> r" by auto
      ultimately show ?thesis
        using rank_path [OF Suc.prems(1) _ Suc.prems(3) that] by blast
    qed
    have inv3: "uf_inv K uf3"
      using inv2 rr lt unfolding uf_inv_def p3 r3
      by (auto simp: Suc.prems(3) split: if_splits)
    from res xr inv3 eq3 keys3 show ?thesis
      by (simp add: uf3_def rk)
  qed
qed




lemma uf_inv_closed: "uf_inv K uf \<Longrightarrow> parent_of uf x = Some y \<Longrightarrow> parent_of uf y \<noteq> None"
  unfolding uf_inv_def by blast

lemma uf_inv_order:
  "uf_inv K uf \<Longrightarrow> parent_of uf x = Some y \<Longrightarrow> y \<noteq> x \<Longrightarrow> rank_of uf x = Some kx \<Longrightarrow>
   rank_of uf y = Some ky \<Longrightarrow> kx < ky"
  unfolding uf_inv_def by blast

lemma uf_inv_bound: "uf_inv K uf \<Longrightarrow> rank_of uf x = Some k \<Longrightarrow> 0 \<le> k \<and> k \<le> K"
  unfolding uf_inv_def by blast

lemma uf_invI:
  assumes "\<And>x y. parent_of uf x = Some y \<Longrightarrow> parent_of uf y \<noteq> None"
    and "\<And>x. parent_of uf x \<noteq> None \<Longrightarrow> rank_of uf x \<noteq> None"
    and "\<And>x y kx ky. parent_of uf x = Some y \<Longrightarrow> y \<noteq> x \<Longrightarrow> rank_of uf x = Some kx \<Longrightarrow>
           rank_of uf y = Some ky \<Longrightarrow> kx < ky"
    and "\<And>x k. rank_of uf x = Some k \<Longrightarrow> 0 \<le> k \<and> k \<le> K"
  shows "uf_inv K uf"
  unfolding uf_inv_def using assms by blast

lemma in_keys: "parent_of uf x \<noteq> None \<longleftrightarrow> x \<in> set (map fst (parent uf))"
  using map_of_eq_None_iff [of "parent uf" x] by (simp add: parent_of_def)

lemma rep_exists:
  assumes "uf_inv K uf" "parent_of uf x \<noteq> None"
  shows "\<exists>r. rep uf x r"
proof -
  from uf_inv_rank [OF assms] obtain k where k: "rank_of uf x = Some k" by blast
  have "nat (K - k) < Suc (nat (K - k))" by simp
  from find_ok [OF assms k this] obtain uf' r where "rep uf x r" by blast
  then show ?thesis ..
qed

lemma same_refl: "uf_inv K uf \<Longrightarrow> parent_of uf x \<noteq> None \<Longrightarrow> same uf x x"
  using rep_exists [of K uf x] by (auto simp: same_def)

lemma same_sym: "same uf x y \<Longrightarrow> same uf y x"
  by (auto simp: same_def)

lemma same_trans:
  assumes "same uf x y" "same uf y z"
  shows "same uf x z"
proof -
  from assms obtain r q where "rep uf x r" "rep uf y r" "rep uf y q" "rep uf z q"
    by (auto simp: same_def)
  moreover from this have "r = q" using rep_unique by blast
  ultimately show ?thesis unfolding same_def by blast
qed


lemma link_ok:
  assumes inv: "uf_inv K uf"
    and roots: "parent_of uf p = Some p" "parent_of uf q = Some q" "p \<noteq> q"
    and ranks: "rank_of uf p = Some kp" "rank_of uf q = Some kq"
    and par: "parent_of uf' = (parent_of uf)(q \<mapsto> p)"
    and rk: "rank_of uf' = rank_of uf \<and> kq < kp \<or> rank_of uf' = (rank_of uf)(p \<mapsto> kp + 1) \<and> kq = kp"
  shows "uf_inv (K + 1) uf'"
proof (rule uf_invI)
  fix x y assume xy: "parent_of uf' x = Some y"
  show "parent_of uf' y \<noteq> None"
  proof (cases "x = q")
    case True
    with xy par have "y = p" by simp
    with roots par show ?thesis by simp
  next
    case False
    with xy par have "parent_of uf x = Some y" by simp
    from uf_inv_closed [OF inv this] par show ?thesis by simp
  qed
next
  fix x assume "parent_of uf' x \<noteq> None"
  then have "parent_of uf x \<noteq> None" using par roots by (cases "x = q") simp_all
  from uf_inv_rank [OF inv this] obtain k where "rank_of uf x = Some k" by blast
  with rk show "rank_of uf' x \<noteq> None" by (cases "x = p") auto
next
  fix x k assume xk: "rank_of uf' x = Some k"
  show "0 \<le> k \<and> k \<le> K + 1"
  proof (cases "rank_of uf x = Some k")
    case True
    from uf_inv_bound [OF inv this] show ?thesis by simp
  next
    case False
    with xk rk have "x = p" "k = kp + 1" by (auto split: if_splits)
    with uf_inv_bound [OF inv ranks(1)] show ?thesis by simp
  qed
next
  fix x y kx ky
  assume that: "parent_of uf' x = Some y" "y \<noteq> x" "rank_of uf' x = Some kx" "rank_of uf' y = Some ky"
  show "kx < ky"
  proof (cases "x = q")
    case True
    with that(1) par have y: "y = p" by simp
    from True that(3) roots(3) rk ranks(2) have "kx = kq" by (auto split: if_splits)
    moreover from y that(4) rk ranks(1) have "kq < ky" by (auto split: if_splits)
    ultimately show ?thesis by simp
  next
    case False
    with that(1) par have old: "parent_of uf x = Some y" by simp
    with that(2) roots(1) have xp: "x \<noteq> p" by auto
    from uf_inv_closed [OF inv old] have "parent_of uf y \<noteq> None" .
    from uf_inv_rank [OF inv this] obtain ky' where ky': "rank_of uf y = Some ky'" by blast
    from that(3) xp rk have kx: "rank_of uf x = Some kx" by (auto split: if_splits)
    from uf_inv_order [OF inv old that(2) kx ky'] have "kx < ky'" .
    moreover have "ky' \<le> ky" using that(4) ky' rk ranks(1) by (cases "y = p") (auto split: if_splits)
    ultimately show ?thesis by simp
  qed
qed



lemma update_key_order:
  assumes "parent_of uf x \<noteq> None"
  shows "map fst (AList.update x y (parent uf)) = map fst (parent uf)"
proof -
  from assms have "x \<in> set (map fst (parent uf))" by (simp only: in_keys)
  then show ?thesis by (simp add: update_keys del: set_map)
qed

lemma link_same:
  assumes "parent_of uf p = Some p" "parent_of uf q = Some q" "p \<noteq> q"
    "parent_of uf' = (parent_of uf)(q \<mapsto> p)"
  shows "same uf y z \<Longrightarrow> same uf' y z"
    and "rep uf a p \<Longrightarrow> rep uf b q \<Longrightarrow> same uf' a b"
proof -
  note l = link [OF assms]
  show "same uf' y z" if "same uf y z"
  proof -
    from that obtain r where "rep uf y r" "rep uf z r" unfolding same_def by blast
    then have "rep uf' y (if r = q then p else r)" "rep uf' z (if r = q then p else r)"
      by (simp_all only: l)
    then show ?thesis unfolding same_def by blast
  qed
  show "same uf' a b" if "rep uf a p" "rep uf b q"
  proof -
    from l [OF that(1)] assms(3) have "rep uf' a p" by simp
    moreover from l [OF that(2)] have "rep uf' b p" by simp
    ultimately show ?thesis unfolding same_def by blast
  qed
qed

lemma find_ok_key:
  assumes "uf_inv K uf" "parent_of uf x \<noteq> None" "nat K < depth"
  obtains uf' r where "find_uf depth uf x = Inr (uf', r)" "rep uf x r" "uf_inv K uf'"
    "\<And>y q. rep uf' y q \<longleftrightarrow> rep uf y q" "map fst (parent uf') = map fst (parent uf)"
proof -
  from uf_inv_rank [OF assms(1,2)] obtain k where k: "rank_of uf x = Some k" "0 \<le> k" by blast
  with assms(3) have "nat (K - k) < depth" by linarith
  from find_ok [OF assms(1,2) k(1) this] that show thesis by blast
qed


lemma key_kept:
  "map fst (parent uf') = map fst (parent uf) \<Longrightarrow> parent_of uf x \<noteq> None \<Longrightarrow> parent_of uf' x \<noteq> None"
  by (simp only: in_keys)

lemma union_ok:
  assumes inv: "uf_inv K uf" and a: "parent_of uf a \<noteq> None" and b: "parent_of uf b \<noteq> None"
    and depth: "nat K < depth"
  shows "\<exists>uf'. union_uf depth uf a b = Inr uf' \<and> uf_inv (K + 1) uf' \<and>
           map fst (parent uf') = map fst (parent uf) \<and>
           (\<forall>y z. same uf y z \<longrightarrow> same uf' y z) \<and> same uf' a b"
proof -
  from find_ok_key [OF inv a depth] obtain uf1 r1 where
    f1: "find_uf depth uf a = Inr (uf1, r1)" and ra: "rep uf a r1" and inv1: "uf_inv K uf1"
    and eq1: "\<And>y q. rep uf1 y q \<longleftrightarrow> rep uf y q"
    and keys1: "map fst (parent uf1) = map fst (parent uf)"
    by blast
  have b1: "parent_of uf1 b \<noteq> None" using keys1 b by (rule key_kept)
  from find_ok_key [OF inv1 b1 depth] obtain uf2 r2 where
    f2: "find_uf depth uf1 b = Inr (uf2, r2)" and rb: "rep uf1 b r2" and inv2: "uf_inv K uf2"
    and eq2: "\<And>y q. rep uf2 y q \<longleftrightarrow> rep uf1 y q"
    and keys2: "map fst (parent uf2) = map fst (parent uf1)"
    by blast
  have eq: "rep uf2 y q \<longleftrightarrow> rep uf y q" for y q by (simp only: eq1 eq2)
  have same2: "same uf2 y z \<longleftrightarrow> same uf y z" for y z by (simp only: same_def eq)
  have ra2: "rep uf2 a r1" using ra by (simp only: eq)
  have rb2: "rep uf2 b r2" using rb by (simp only: eq2)
  have keys: "map fst (parent uf2) = map fst (parent uf)" by (simp only: keys1 keys2)
  show ?thesis
  proof (cases "r1 = r2")
    case True
    have "union_uf depth uf a b = Inr uf2" using f1 f2 True by (simp add: union_uf_def)
    moreover have "uf_inv (K + 1) uf2" using inv2 by (rule uf_inv_mono) simp
    moreover have "same uf2 a b" using ra2 rb2 True unfolding same_def by blast
    ultimately show ?thesis using keys same2 by blast
  next
    case False
    have p1: "parent_of uf2 r1 = Some r1" using ra2 by (rule rep_dom)
    have p2: "parent_of uf2 r2 = Some r2" using rb2 by (rule rep_dom)
    from p1 have "parent_of uf2 r1 \<noteq> None" by simp
    from uf_inv_rank [OF inv2 this] obtain k1 where k1: "rank_of uf2 r1 = Some k1" by blast
    from p2 have "parent_of uf2 r2 \<noteq> None" by simp
    from uf_inv_rank [OF inv2 this] obtain k2 where k2: "rank_of uf2 r2 = Some k2" by blast
    have m: "map_of (rank uf2) r1 = Some k1" "map_of (rank uf2) r2 = Some k2"
      using k1 k2 by (simp_all add: rank_of_def)
    have fin: "\<exists>uf'. union_uf depth uf a b = Inr uf' \<and> uf_inv (K + 1) uf' \<and>
           map fst (parent uf') = map fst (parent uf) \<and>
           (\<forall>y z. same uf y z \<longrightarrow> same uf' y z) \<and> same uf' a b"
      if res: "union_uf depth uf a b = Inr uf'" and i: "uf_inv (K + 1) uf'"
        and par: "parent_of uf' = (parent_of uf2)(q \<mapsto> p)" "parent uf' = AList.update q p (parent uf2)"
        and pq: "p = r1 \<and> q = r2 \<or> p = r2 \<and> q = r1" for uf' p q
    proof -
      have roots: "parent_of uf2 p = Some p" "parent_of uf2 q = Some q" "p \<noteq> q"
        using pq p1 p2 False by auto
      note l = link_same [OF roots par(1)]
      have "same uf' a b"
      proof (rule disjE [OF pq])
        assume "p = r1 \<and> q = r2"
        with l(2) [of a b] ra2 rb2 show ?thesis by simp
      next
        assume "p = r2 \<and> q = r1"
        with l(2) [of b a] ra2 rb2 show ?thesis by (simp add: same_sym)
      qed
      moreover have "same uf y z \<longrightarrow> same uf' y z" for y z
        using l(1) [of y z] by (simp only: same2) blast
      moreover have "map fst (parent uf') = map fst (parent uf)"
        using update_key_order [of uf2 q p] roots(2) keys by (simp add: par(2))
      ultimately show ?thesis using res i by blast
    qed
    consider (lt) "k1 < k2" | (gt) "k2 < k1" | (eq) "k1 = k2" by linarith
    then show ?thesis
    proof cases
      case lt
      define uf' where "uf' = uf2\<lparr>parent := AList.update r1 r2 (parent uf2)\<rparr>"
      have res: "union_uf depth uf a b = Inr uf'"
        using f1 f2 False m lt by (simp add: union_uf_def uf'_def)
      have par: "parent_of uf' = (parent_of uf2)(r1 \<mapsto> r2)"
        by (simp add: uf'_def parent_of_def update_conv')
      have rk: "rank_of uf' = rank_of uf2" by (simp add: uf'_def rank_of_def)
      have "uf_inv (K + 1) uf'"
        by (rule link_ok [OF inv2 p2 p1 False [symmetric] k2 k1 par]) (simp add: rk lt)
      from fin [OF res this par] show ?thesis by (simp add: uf'_def)
    next
      case gt
      define uf' where "uf' = uf2\<lparr>parent := AList.update r2 r1 (parent uf2)\<rparr>"
      have res: "union_uf depth uf a b = Inr uf'"
        using f1 f2 False m gt by (simp add: union_uf_def uf'_def)
      have par: "parent_of uf' = (parent_of uf2)(r2 \<mapsto> r1)"
        by (simp add: uf'_def parent_of_def update_conv')
      have rk: "rank_of uf' = rank_of uf2" by (simp add: uf'_def rank_of_def)
      have "uf_inv (K + 1) uf'"
        by (rule link_ok [OF inv2 p1 p2 False k1 k2 par]) (simp add: rk gt)
      from fin [OF res this par] show ?thesis by (simp add: uf'_def)
    next
      case eq
      define uf' where "uf' = uf2\<lparr>parent := AList.update r2 r1 (parent uf2),
                                    rank := AList.update r1 (k1 + 1) (rank uf2)\<rparr>"
      have res: "union_uf depth uf a b = Inr uf'"
        using f1 f2 False m eq by (simp add: union_uf_def uf'_def)
      have par: "parent_of uf' = (parent_of uf2)(r2 \<mapsto> r1)"
        by (simp add: uf'_def parent_of_def update_conv')
      have rk: "rank_of uf' = (rank_of uf2)(r1 \<mapsto> k1 + 1)"
        by (simp add: uf'_def rank_of_def update_conv')
      have "uf_inv (K + 1) uf'"
        by (rule link_ok [OF inv2 p1 p2 False k1 k2 par]) (simp add: rk eq)
      from fin [OF res this par] show ?thesis by (simp add: uf'_def)
    qed
  qed
qed



lemma add_ok:
  assumes "uf_inv K uf" and K: "0 \<le> K"
  shows "uf_inv K (add uf x)"
    and "set (map fst (parent (add uf x))) = insert x (set (map fst (parent uf)))"
proof -
  show "set (map fst (parent (add uf x))) = insert x (set (map fst (parent uf)))"
    using map_of_eq_None_iff [of "parent uf" x]
    by (auto simp: add_def dom_update simp del: map_of_eq_None_iff)
  show "uf_inv K (add uf x)"
  proof (cases "parent_of uf x = None")
    case False
    then have "add uf x = uf"
      unfolding add_def parent_of_def by (rule if_not_P)
    with assms(1) show ?thesis by simp
  next
    case True
    then have par: "parent_of (add uf x) = (parent_of uf)(x \<mapsto> x)"
      and rk: "rank_of (add uf x) = (rank_of uf)(x \<mapsto> 0)"
      by (simp_all add: add_def parent_of_def rank_of_def update_conv')
    show ?thesis
    proof (rule uf_invI)
      fix a b assume "parent_of (add uf x) a = Some b"
      then show "parent_of (add uf x) b \<noteq> None"
        using uf_inv_closed [OF assms(1), of a b] by (auto simp: par split: if_splits)
    next
      fix a assume "parent_of (add uf x) a \<noteq> None"
      then show "rank_of (add uf x) a \<noteq> None"
        using uf_inv_rank [OF assms(1), of a] by (auto simp: par rk split: if_splits)
    next
      fix a b ka kb
      assume ab: "parent_of (add uf x) a = Some b" "b \<noteq> a"
        and r: "rank_of (add uf x) a = Some ka" "rank_of (add uf x) b = Some kb"
      from ab have ax: "a \<noteq> x" and old: "parent_of uf a = Some b"
        by (auto simp: par split: if_splits)
      from uf_inv_closed [OF assms(1) old] True have "b \<noteq> x" by auto
      with ax r have "rank_of uf a = Some ka" "rank_of uf b = Some kb" by (simp_all add: rk)
      from uf_inv_order [OF assms(1) old ab(2) this] show "ka < kb" .
    next
      fix a k assume a: "rank_of (add uf x) a = Some k"
      show "0 \<le> k \<and> k \<le> K"
      proof (cases "a = x")
        case False
        with a have "rank_of uf a = Some k" by (simp add: rk)
        from uf_inv_bound [OF assms(1) this] show ?thesis .
      next
        case ax: True
        with a have "k = 0" by (simp add: rk)
        with K show ?thesis by simp
      qed
    qed
  qed
qed


lemma uf_inv_empty: "uf_inv 0 \<lparr>parent = [], rank = []\<rparr>"
  by (rule uf_invI) (simp_all add: parent_of_def rank_of_def)

lemma add_cells_ok:
  assumes "uf_inv 0 uf"
  shows "uf_inv 0 (fold (\<lambda>cell uf. add uf cell) cells uf) \<and>
         set (map fst (parent (fold (\<lambda>cell uf. add uf cell) cells uf))) =
           set (map fst (parent uf)) \<union> set cells"
  using assms
proof (induction cells arbitrary: uf)
  case Nil
  then show ?case by simp
next
  case (Cons x xs)
  note a = add_ok [OF Cons.prems order_refl, of x]
  from Cons.IH [OF a(1)] a(2) show ?case by (simp del: set_map)
qed

lemma add_all_ok:
  assumes "uf_inv 0 uf"
  shows "uf_inv 0 (fold (\<lambda>c uf. fold (\<lambda>cell uf. add uf cell) (fst c) uf) cs uf) \<and>
         set (map fst (parent (fold (\<lambda>c uf. fold (\<lambda>cell uf. add uf cell) (fst c) uf) cs uf))) =
           set (map fst (parent uf)) \<union> set (concat (map fst cs))"
  using assms
proof (induction cs arbitrary: uf)
  case Nil
  then show ?case by simp
next
  case (Cons c cs)
  from add_cells_ok [OF Cons.prems, of "fst c"] Cons.IH [of "fold (\<lambda>cell uf. add uf cell) (fst c) uf"]
  show ?case by (simp del: set_map set_concat) blast
qed

lemma chain_ok:
  "uf_inv K uf \<Longrightarrow> 0 \<le> K \<Longrightarrow> \<forall>x \<in> set cells. parent_of uf x \<noteq> None \<Longrightarrow>
   nat K + length cells \<le> depth \<Longrightarrow>
   \<exists>uf'. union_chain depth cells uf = Inr uf' \<and> uf_inv (K + int (length cells)) uf' \<and>
         map fst (parent uf') = map fst (parent uf) \<and>
         (\<forall>y z. same uf y z \<longrightarrow> same uf' y z) \<and>
         (\<forall>x \<in> set cells. \<forall>y \<in> set cells. same uf' x y)"
proof (induction depth cells uf arbitrary: K rule: union_chain.induct [case_names pair nil single])
  case (pair depth a b rest uf)
  from pair.prems have dom: "parent_of uf a \<noteq> None" "parent_of uf b \<noteq> None"
    and d: "nat K < depth" by simp_all
  from union_ok [OF pair.prems(1) dom d] obtain uf1 where
    u: "union_uf depth uf a b = Inr uf1" and inv1: "uf_inv (K + 1) uf1"
    and keys1: "map fst (parent uf1) = map fst (parent uf)"
    and mono1: "\<And>y z. same uf y z \<Longrightarrow> same uf1 y z" and ab: "same uf1 a b"
    by blast
  have dom1: "\<forall>x \<in> set (b # rest). parent_of uf1 x \<noteq> None"
    using pair.prems(3) key_kept [OF keys1] by simp
  have "nat (K + 1) + length (b # rest) \<le> depth" using pair.prems(2,4) by simp
  moreover have "0 \<le> K + 1" using pair.prems(2) by simp
  ultimately have "\<exists>uf'. union_chain depth (b # rest) uf1 = Inr uf' \<and>
         uf_inv (K + 1 + int (length (b # rest))) uf' \<and>
         map fst (parent uf') = map fst (parent uf1) \<and>
         (\<forall>y z. same uf1 y z \<longrightarrow> same uf' y z) \<and>
         (\<forall>x \<in> set (b # rest). \<forall>y \<in> set (b # rest). same uf' x y)"
    using pair.IH [OF u inv1 _ dom1] by blast
  then obtain uf' where
    c: "union_chain depth (b # rest) uf1 = Inr uf'"
    and inv': "uf_inv (K + 1 + int (length (b # rest))) uf'"
    and keys': "map fst (parent uf') = map fst (parent uf1)"
    and mono': "\<And>y z. same uf1 y z \<Longrightarrow> same uf' y z"
    and all: "\<And>x y. x \<in> set (b # rest) \<Longrightarrow> y \<in> set (b # rest) \<Longrightarrow> same uf' x y"
    by blast
  have ab': "same uf' a b" using ab by (rule mono')
  have ax: "same uf' a x" if "x \<in> set (b # rest)" for x
    using same_trans [OF ab' all [of b x]] that by simp
  have aa: "same uf' a a" using same_trans [OF ab' same_sym [OF ab']] .
  have "same uf' x y" if "x \<in> set (a # b # rest)" "y \<in> set (a # b # rest)" for x y
  proof -
    from that consider "x = a" "y = a" | "x = a" "y \<in> set (b # rest)"
      | "x \<in> set (b # rest)" "y = a" | "x \<in> set (b # rest)" "y \<in> set (b # rest)" by auto
    then show ?thesis
      using aa ax all same_sym by cases blast+
  qed
  moreover have "union_chain depth (a # b # rest) uf = Inr uf'" using u c by simp
  moreover have "K + 1 + int (length (b # rest)) = K + int (length (a # b # rest))" by simp
  then have "uf_inv (K + int (length (a # b # rest))) uf'"
    using inv' by (simp only:)
  moreover have "map fst (parent uf') = map fst (parent uf)" by (simp only: keys' keys1)
  moreover have "same uf y z \<longrightarrow> same uf' y z" for y z using mono1 mono' by blast
  ultimately show ?case by blast
next
  case (nil depth uf)
  then show ?case by simp
next
  case (single depth v uf)
  then have "same uf v v" using same_refl by simp
  moreover have "uf_inv (K + 1) uf" using single.prems(1) by (rule uf_inv_mono) simp
  ultimately show ?case by simp
qed



lemma for_each_inv:
  assumes "I s" "\<And>x s. x \<in> set xs \<Longrightarrow> I s \<Longrightarrow> \<exists>s'. body x s = Inr s' \<and> I s'"
  shows "\<exists>s'. for_each body xs s = Inr s' \<and> I s'"
  using assms
proof (induction xs arbitrary: s)
  case Nil
  then show ?case by simp
next
  case (Cons x xs)
  from Cons.prems(2) [of x s] Cons.prems(1) obtain s1 where s1: "body x s = Inr s1" "I s1" by auto
  from Cons.IH [OF s1(2)] Cons.prems(2) obtain s' where "for_each body xs s1 = Inr s'" "I s'"
    by auto
  with s1(1) show ?case by simp
qed

lemma for_each_prefix_aux:
  assumes "I pre s" "all = pre @ xs"
    and "\<And>pre x post s. all = pre @ x # post \<Longrightarrow> I pre s \<Longrightarrow>
           \<exists>s'. body x s = Inr s' \<and> I (pre @ [x]) s'"
  shows "\<exists>s'. for_each body xs s = Inr s' \<and> I (pre @ xs) s'"
  using assms(1,2)
proof (induction xs arbitrary: pre s)
  case Nil
  then show ?case by simp
next
  case (Cons x xs)
  from assms(3) [OF Cons.prems(2) Cons.prems(1)] obtain s1 where
    s1: "body x s = Inr s1" "I (pre @ [x]) s1" by auto
  have "\<exists>s'. for_each body xs s1 = Inr s' \<and> I ((pre @ [x]) @ xs) s'"
    by (rule Cons.IH [OF s1(2)]) (simp add: Cons.prems(2))
  with s1(1) show ?case by simp
qed

lemma for_each_prefix:
  assumes "I [] s"
    and "\<And>pre x post s. xs = pre @ x # post \<Longrightarrow> I pre s \<Longrightarrow>
           \<exists>s'. body x s = Inr s' \<and> I (pre @ [x]) s'"
  shows "\<exists>s'. for_each body xs s = Inr s' \<and> I xs s'"
  using for_each_prefix_aux [of I "[]" s xs xs body] assms by simp

text \<open>The state of the union phase after the constraints of \<open>pre\<close>.\<close>

definition chained :: "union_find \<Rightarrow> listed_constraint list \<Rightarrow> union_find \<Rightarrow> bool" where
  "chained uf0 pre uf \<longleftrightarrow>
     uf_inv (int (length (concat (map fst pre)))) uf \<and>
     map fst (parent uf) = map fst (parent uf0) \<and>
     (\<forall>c \<in> set pre. \<forall>x \<in> set (fst c). \<forall>y \<in> set (fst c). same uf x y)"

lemma chains_ok:
  assumes inv: "uf_inv 0 uf0"
    and dom: "\<forall>c \<in> set cs. \<forall>x \<in> set (fst c). parent_of uf0 x \<noteq> None"
    and depth: "length (concat (map fst cs)) \<le> depth"
  shows "\<exists>uf. for_each (\<lambda>c. union_chain depth (fst c)) cs uf0 = Inr uf \<and> chained uf0 cs uf"
proof (rule for_each_prefix)
  show "chained uf0 [] uf0" using inv by (simp add: chained_def)
next
  fix pre x post uf
  assume cs: "cs = pre @ x # post" and ch: "chained uf0 pre uf"
  let ?K = "int (length (concat (map fst pre)))"
  from ch have i: "uf_inv ?K uf" and keys: "map fst (parent uf) = map fst (parent uf0)"
    and sm: "\<forall>c \<in> set pre. \<forall>a \<in> set (fst c). \<forall>b \<in> set (fst c). same uf a b"
    by (simp_all add: chained_def)
  have d: "\<forall>a \<in> set (fst x). parent_of uf a \<noteq> None"
    using dom cs key_kept [OF keys] by simp
  have "nat ?K + length (fst x) \<le> depth" using depth cs by simp
  from chain_ok [OF i _ d this] obtain uf' where
    c: "union_chain depth (fst x) uf = Inr uf'" and i': "uf_inv (?K + int (length (fst x))) uf'"
    and keys': "map fst (parent uf') = map fst (parent uf)"
    and mono: "\<And>y z. same uf y z \<Longrightarrow> same uf' y z"
    and all: "\<forall>a \<in> set (fst x). \<forall>b \<in> set (fst x). same uf' a b"
    by auto
  have "?K + int (length (fst x)) = int (length (concat (map fst (pre @ [x]))))" by simp
  with i' have "uf_inv (int (length (concat (map fst (pre @ [x]))))) uf'" by (simp only:)
  moreover have "\<forall>c \<in> set (pre @ [x]). \<forall>a \<in> set (fst c). \<forall>b \<in> set (fst c). same uf' a b"
    using sm mono all by auto
  ultimately have "chained uf0 (pre @ [x]) uf'"
    using keys keys' by (simp add: chained_def)
  with c show "\<exists>s'. union_chain depth (fst x) uf = Inr s' \<and> chained uf0 (pre @ [x]) s'" by blast
qed



lemma update_absent: "map_of al k = None \<Longrightarrow> AList.update k v al = al @ [(k, v)]"
  by (induction al) (auto split: if_splits)

lemma update_present:
  "map_of al k = Some g \<Longrightarrow>
   \<exists>p1 p2. al = p1 @ (k, g) # p2 \<and> AList.update k v al = p1 @ (k, v) # p2"
proof (induction al)
  case Nil
  then show ?case by simp
next
  case (Cons p al)
  show ?case
  proof (cases "fst p = k")
    case True
    with Cons.prems have "p = (k, g)" by (cases p) simp
    then have "p # al = [] @ (k, g) # al \<and> AList.update k v (p # al) = [] @ (k, v) # al" by simp
    then show ?thesis by blast
  next
    case False
    with Cons.prems have "map_of al k = Some g" by (cases p) (simp split: if_splits)
    from Cons.IH [OF this] obtain p1 p2 where
      "al = p1 @ (k, g) # p2" "AList.update k v al = p1 @ (k, v) # p2" by blast
    with False have "p # al = (p # p1) @ (k, g) # p2 \<and>
                     AList.update k v (p # al) = (p # p1) @ (k, v) # p2"
      by (cases p) simp
    then show ?thesis by blast
  qed
qed

lemma region_append:
  fixes regions :: "(coord \<times> listed_constraint list) list" and r :: coord and c :: listed_constraint
  assumes "distinct (map fst regions)"
  defines "regions1 \<equiv> (if map_of regions r = None then AList.update r [] regions else regions)"
  defines "regions2 \<equiv> AList.update r (the (map_of regions1 r) @ [c]) regions1"
  shows "distinct (map fst regions2)"
    and "mset (concat (map snd regions2)) = mset (concat (map snd regions)) + {#c#}"
    and "\<forall>kg \<in> set regions2. kg \<in> set regions \<or>
           fst kg = r \<and> (snd kg = [c] \<or> (\<exists>g0. (r, g0) \<in> set regions \<and> snd kg = g0 @ [c]))"
proof -
  have d2: "distinct (map fst regions2)"
    using assms(1) unfolding regions2_def regions1_def by (simp add: distinct_update)
  have "mset (concat (map snd regions2)) = mset (concat (map snd regions)) + {#c#} \<and>
        (\<forall>kg \<in> set regions2. kg \<in> set regions \<or>
           fst kg = r \<and> (snd kg = [c] \<or> (\<exists>g0. (r, g0) \<in> set regions \<and> snd kg = g0 @ [c])))"
  proof (cases "map_of regions r")
    case None
    then have r1: "regions1 = regions @ [(r, [])]"
      by (simp add: regions1_def update_absent)
    from None have m1: "map_of regions1 r = Some []"
      by (simp add: r1 map_add_def)
    from update_present [OF m1, of "[] @ [c]"] obtain p1 p2 where
      p: "regions1 = p1 @ (r, []) # p2" "AList.update r ([] @ [c]) regions1 = p1 @ (r, [] @ [c]) # p2"
      by blast
    have "r \<notin> fst ` set regions" using None by (simp add: map_of_eq_None_iff)
    with p(1) r1 have "p1 = regions \<and> p2 = []"
      by (auto simp: append_eq_append_conv2 append_eq_Cons_conv Cons_eq_append_conv)
    with p(2) m1 have "regions2 = regions @ [(r, [c])]" by (simp add: regions2_def)
    then show ?thesis by auto
  next
    case (Some g)
    then have r1: "regions1 = regions" by (simp add: regions1_def)
    from update_present [OF Some, of "g @ [c]"] obtain p1 p2 where
      p: "regions = p1 @ (r, g) # p2" "AList.update r (g @ [c]) regions = p1 @ (r, g @ [c]) # p2"
      by blast
    with Some r1 have r2: "regions2 = p1 @ (r, g @ [c]) # p2" by (simp add: regions2_def)
    have mem: "(r, g) \<in> set regions" and sub: "set p1 \<subseteq> set regions" "set p2 \<subseteq> set regions"
      using p(1) by auto
    have "mset (concat (map snd (p1 @ (r, g @ [c]) # p2))) = mset (concat (map snd regions)) + {#c#}"
      by (subst p(1)) simp
    with mem sub show ?thesis unfolding r2 by auto
  qed
  with d2 show "distinct (map fst regions2)"
    and "mset (concat (map snd regions2)) = mset (concat (map snd regions)) + {#c#}"
    and "\<forall>kg \<in> set regions2. kg \<in> set regions \<or>
           fst kg = r \<and> (snd kg = [c] \<or> (\<exists>g0. (r, g0) \<in> set regions \<and> snd kg = g0 @ [c]))"
    by blast+
qed



text \<open>A later state of the structure: same keys, same representatives.\<close>

definition settled :: "int \<Rightarrow> union_find \<Rightarrow> union_find \<Rightarrow> bool" where
  "settled K uf1 uf \<longleftrightarrow>
     uf_inv K uf \<and> map fst (parent uf) = map fst (parent uf1) \<and>
     (\<forall>y q. rep uf y q \<longleftrightarrow> rep uf1 y q)"

lemma settled_find:
  assumes "settled K uf1 uf" "parent_of uf1 x \<noteq> None" "nat K < depth"
  obtains uf' r where "find_uf depth uf x = Inr (uf', r)" "rep uf1 x r" "settled K uf1 uf'"
proof -
  from assms(1) have i: "uf_inv K uf" and keys: "map fst (parent uf) = map fst (parent uf1)"
    and eq: "\<And>y q. rep uf y q \<longleftrightarrow> rep uf1 y q"
    unfolding settled_def by blast+
  have d: "parent_of uf x \<noteq> None" using keys assms(2) by (rule key_kept)
  from find_ok_key [OF i d assms(3)] obtain uf' r where
    f: "find_uf depth uf x = Inr (uf', r)" "rep uf x r" "uf_inv K uf'"
    "\<And>y q. rep uf' y q \<longleftrightarrow> rep uf y q" "map fst (parent uf') = map fst (parent uf)"
    by blast
  have "rep uf' y q \<longleftrightarrow> rep uf1 y q" for y q by (simp only: f(4) eq)
  then have "settled K uf1 uf'"
    unfolding settled_def using f(3,5) keys by simp
  with f(1,2) eq that show thesis by blast
qed

lemma get_groups_ok:
  assumes "uf_inv K uf1" "nat K < depth"
  shows "\<exists>uf groups. get_groups depth uf1 = Inr (uf, groups) \<and> settled K uf1 uf"
proof -
  have "\<exists>s'. for_each (get_groups_step depth) (map fst (parent uf1)) (uf1, []) = Inr s' \<and>
             settled K uf1 (fst s')"
  proof (rule for_each_inv [where I = "\<lambda>s. settled K uf1 (fst s)"])
    show "settled K uf1 (fst (uf1, []))" using assms(1) by (simp add: settled_def)
  next
    fix x and s :: "union_find \<times> (coord \<times> coord set) list"
    assume x: "x \<in> set (map fst (parent uf1))" and s: "settled K uf1 (fst s)"
    from x have "parent_of uf1 x \<noteq> None" by (simp only: in_keys)
    from settled_find [OF s this assms(2)] obtain uf' r where
      "find_uf depth (fst s) x = Inr (uf', r)" "settled K uf1 uf'" by blast
    then show "\<exists>s'. get_groups_step depth x s = Inr s' \<and> settled K uf1 (fst s')"
      by (simp add: get_groups_step_def Let_def)
  qed
  then show ?thesis by (auto simp: get_groups_def)
qed

text \<open>The state of the last loop after the constraints of \<open>pre\<close>.\<close>

definition grouped ::
  "int \<Rightarrow> union_find \<Rightarrow> listed_constraint list \<Rightarrow>
     union_find \<times> (coord \<times> listed_constraint list) list \<Rightarrow> bool" where
  "grouped K uf1 pre s \<longleftrightarrow>
     settled K uf1 (fst s) \<and> distinct (map fst (snd s)) \<and>
     mset (concat (map snd (snd s))) = mset pre \<and>
     (\<forall>kg \<in> set (snd s). snd kg \<noteq> [] \<and>
        (\<forall>c \<in> set (snd kg). \<forall>x \<in> set (fst c). rep uf1 x (fst kg)))"

lemma assign_region_ok:
  assumes g: "grouped K uf1 pre s" and depth: "nat K < depth"
    and ne: "fst c \<noteq> []" and dom: "\<forall>x \<in> set (fst c). parent_of uf1 x \<noteq> None"
    and sm: "\<forall>x \<in> set (fst c). \<forall>y \<in> set (fst c). same uf1 x y"
  shows "\<exists>s'. assign_region depth c s = Inr s' \<and> grouped K uf1 (pre @ [c]) s'"
proof -
  from ne obtain first rest where fc: "fst c = first # rest" by (cases "fst c") auto
  from g have st: "settled K uf1 (fst s)" and d: "distinct (map fst (snd s))"
    and ms: "mset (concat (map snd (snd s))) = mset pre"
    and old: "\<forall>kg \<in> set (snd s). snd kg \<noteq> [] \<and>
        (\<forall>c \<in> set (snd kg). \<forall>x \<in> set (fst c). rep uf1 x (fst kg))"
    unfolding grouped_def by blast+
  from dom fc have "parent_of uf1 first \<noteq> None" by simp
  from settled_find [OF st this depth] obtain uf' r where
    f: "find_uf depth (fst s) first = Inr (uf', r)" and rf: "rep uf1 first r"
    and st': "settled K uf1 uf'" by blast
  have reps: "rep uf1 x r" if "x \<in> set (fst c)" for x
  proof -
    have "first \<in> set (fst c)" by (simp add: fc)
    with sm that have "same uf1 x first" by blast
    then obtain q where "rep uf1 x q" "rep uf1 first q" unfolding same_def by blast
    with rf show ?thesis using rep_unique by blast
  qed
  define regions1 where
    "regions1 = (if map_of (snd s) r = None then AList.update r [] (snd s) else snd s)"
  define regions2 where
    "regions2 = AList.update r (the (map_of regions1 r) @ [c]) regions1"
  have res: "assign_region depth c s = Inr (uf', regions2)"
    using f by (simp add: assign_region_def fc Let_def regions1_def regions2_def)
  note ra = region_append [OF d, of r c, folded regions1_def, folded regions2_def]
  have "mset (concat (map snd regions2)) = mset (pre @ [c])" using ra(2) ms by simp
  moreover have "snd kg \<noteq> [] \<and> (\<forall>c \<in> set (snd kg). \<forall>x \<in> set (fst c). rep uf1 x (fst kg))"
    if "kg \<in> set regions2" for kg
  proof -
    from ra(3) that consider "kg \<in> set (snd s)" | "fst kg = r" "snd kg = [c]"
      | g0 where "fst kg = r" "(r, g0) \<in> set (snd s)" "snd kg = g0 @ [c]" by blast
    then show ?thesis
    proof cases
      case 1
      with old show ?thesis by blast
    next
      case 2
      with reps show ?thesis by simp
    next
      case 3
      from old 3(2) have "\<forall>c \<in> set g0. \<forall>x \<in> set (fst c). rep uf1 x r" by force
      with 3 reps show ?thesis by auto
    qed
  qed
  ultimately have "grouped K uf1 (pre @ [c]) (uf', regions2)"
    using st' ra(1) by (simp add: grouped_def)
  with res show ?thesis by blast
qed



lemma regions_grouped:
  assumes ne: "\<forall>c \<in> set constraints. fst c \<noteq> []"
    and depth: "length (concat (map fst constraints)) < depth"
  defines "K \<equiv> int (length (concat (map fst constraints)))"
  shows "\<exists>uf1 uf regions.
           (constraints \<noteq> [] \<longrightarrow> find_independent_regions depth constraints = Inr (map snd regions)) \<and>
           grouped K uf1 constraints (uf, regions)"
proof -
  let ?uf0 = "fold (\<lambda>c uf. fold (\<lambda>cell uf. add uf cell) (fst c) uf) constraints
                \<lparr>parent = [], rank = []\<rparr>"
  from add_all_ok [OF uf_inv_empty, of constraints]
  have inv0: "uf_inv 0 ?uf0"
    and keys0: "set (map fst (parent ?uf0)) = set (concat (map fst constraints))"
    by simp_all
  have dom0: "\<forall>c \<in> set constraints. \<forall>x \<in> set (fst c). parent_of ?uf0 x \<noteq> None"
    unfolding in_keys keys0 by auto
  from depth have "length (concat (map fst constraints)) \<le> depth" by simp
  from chains_ok [OF inv0 dom0 this] obtain uf1 where
    ch: "for_each (\<lambda>c. union_chain depth (fst c)) constraints ?uf0 = Inr uf1"
    and c1: "chained ?uf0 constraints uf1" by blast
  from c1 have inv1: "uf_inv K uf1" and keys1: "map fst (parent uf1) = map fst (parent ?uf0)"
    and sm: "\<forall>c \<in> set constraints. \<forall>x \<in> set (fst c). \<forall>y \<in> set (fst c). same uf1 x y"
    unfolding chained_def K_def by blast+
  have d: "nat K < depth" using depth by (simp add: K_def)
  from get_groups_ok [OF inv1 d] obtain uf2 groups where
    gg: "get_groups depth uf1 = Inr (uf2, groups)" and st2: "settled K uf1 uf2" by blast
  have dom1: "\<forall>c \<in> set constraints. \<forall>x \<in> set (fst c). parent_of uf1 x \<noteq> None"
    using dom0 key_kept [OF keys1] by blast
  have "\<exists>s'. for_each (assign_region depth) constraints (uf2, []) = Inr s' \<and>
             grouped K uf1 constraints s'"
  proof (rule for_each_prefix)
    show "grouped K uf1 [] (uf2, [])" using st2 by (simp add: grouped_def)
  next
    fix pre x post and s :: "union_find \<times> (coord \<times> listed_constraint list) list"
    assume cs: "constraints = pre @ x # post" and g: "grouped K uf1 pre s"
    then have x: "x \<in> set constraints" by simp
    show "\<exists>s'. assign_region depth x s = Inr s' \<and> grouped K uf1 (pre @ [x]) s'"
      by (rule assign_region_ok [OF g d]) (use x ne dom1 sm in blast)+
  qed
  then obtain uf3 regions where
    fe: "for_each (assign_region depth) constraints (uf2, []) = Inr (uf3, regions)"
    and gr: "grouped K uf1 constraints (uf3, regions)"
    by (metis surj_pair)
  have "find_independent_regions depth constraints = Inr (map snd regions)" if "constraints \<noteq> []"
    using that ch gg fe by (simp add: find_independent_regions_def Let_def)
  with gr show ?thesis by blast
qed


text \<open>
  Claim C9. For a non-empty list of constraints, each with at least one cell (the cells
  listed in any iteration order), and a recursion limit above the number of listed cells,
  \<open>_find_independent_regions\<close> returns groups that partition the constraints: the groups
  together hold each constraint as often as the input does, no group is empty, two
  constraints in different groups share no cell, and two constraints that share a cell
  are in one group.
\<close>

theorem find_independent_regions_partition:
  assumes "constraints \<noteq> []"
    and "\<forall>c \<in> set constraints. fst c \<noteq> []"
    and "length (concat (map fst constraints)) < depth"
  shows "\<exists>groups.
           find_independent_regions depth constraints = Inr groups \<and>
           mset (concat groups) = mset constraints \<and>
           (\<forall>g \<in> set groups. g \<noteq> []) \<and>
           (\<forall>i j. i < length groups \<and> j < length groups \<and> i \<noteq> j \<longrightarrow>
              (\<forall>c1 \<in> set (groups ! i). \<forall>c2 \<in> set (groups ! j).
                 set (fst c1) \<inter> set (fst c2) = {})) \<and>
           (\<forall>c1 \<in> set constraints. \<forall>c2 \<in> set constraints.
              set (fst c1) \<inter> set (fst c2) \<noteq> {} \<longrightarrow>
              (\<exists>g \<in> set groups. c1 \<in> set g \<and> c2 \<in> set g))"
proof -
  define K where "K = int (length (concat (map fst constraints)))"
  from regions_grouped [OF assms(2,3)] assms(1) obtain uf1 uf regions where
    res: "find_independent_regions depth constraints = Inr (map snd regions)"
    and gr: "grouped K uf1 constraints (uf, regions)"
    unfolding K_def by blast
  define groups where "groups = map snd regions"
  from gr have d: "distinct (map fst regions)"
    and ms: "mset (concat groups) = mset constraints"
    and ent: "\<And>kg. kg \<in> set regions \<Longrightarrow> snd kg \<noteq> [] \<and>
        (\<forall>c \<in> set (snd kg). \<forall>x \<in> set (fst c). rep uf1 x (fst kg))"
    unfolding grouped_def groups_def by simp_all
  have ne: "\<forall>g \<in> set groups. g \<noteq> []"
    using ent unfolding groups_def by auto
  have disj: "set (fst c1) \<inter> set (fst c2) = {}"
    if "i < length groups" "j < length groups" "i \<noteq> j"
      "c1 \<in> set (groups ! i)" "c2 \<in> set (groups ! j)" for i j c1 c2
  proof (rule ccontr)
    assume "set (fst c1) \<inter> set (fst c2) \<noteq> {}"
    then obtain x where x: "x \<in> set (fst c1)" "x \<in> set (fst c2)" by blast
    from that(1,2) have li: "i < length regions" and lj: "j < length regions"
      by (simp_all add: groups_def)
    from li that(4) ent [of "regions ! i"] x(1) have "rep uf1 x (fst (regions ! i))"
      by (simp add: groups_def)
    moreover from lj that(5) ent [of "regions ! j"] x(2) have "rep uf1 x (fst (regions ! j))"
      by (simp add: groups_def)
    ultimately have "fst (regions ! i) = fst (regions ! j)" by (rule rep_unique)
    then have "map fst regions ! i = map fst regions ! j" using li lj by simp
    moreover have "(map fst regions ! i = map fst regions ! j) = (i = j)"
      using d li lj by (intro nth_eq_iff_index_eq) simp_all
    ultimately have "i = j" by (simp only:)
    with that(3) show False by simp
  qed
  have share: "\<exists>g \<in> set groups. c1 \<in> set g \<and> c2 \<in> set g"
    if "c1 \<in> set constraints" "c2 \<in> set constraints" "set (fst c1) \<inter> set (fst c2) \<noteq> {}" for c1 c2
  proof -
    have "set (concat groups) = set constraints"
      using ms by (rule mset_eq_setD)
    with that(1,2) have "c1 \<in> set (concat groups)" "c2 \<in> set (concat groups)"
      by simp_all
    then obtain g1 g2 where g: "g1 \<in> set groups" "c1 \<in> set g1" "g2 \<in> set groups" "c2 \<in> set g2"
      unfolding set_concat by blast
    from g(1) obtain i where i: "i < length groups" "groups ! i = g1"
      unfolding in_set_conv_nth by blast
    from g(3) obtain j where j: "j < length groups" "groups ! j = g2"
      unfolding in_set_conv_nth by blast
    have "i = j"
    proof (rule ccontr)
      assume "i \<noteq> j"
      from disj [OF i(1) j(1) this] g(2,4) i(2) j(2) that(3) show False by simp
    qed
    with i j g show ?thesis by blast
  qed
  show ?thesis
  proof (intro exI [of _ groups] conjI)
    show "find_independent_regions depth constraints = Inr groups"
      using res by (simp only: groups_def)
    show "mset (concat groups) = mset constraints" by (rule ms)
    show "\<forall>g \<in> set groups. g \<noteq> []" by (rule ne)
    show "\<forall>i j. i < length groups \<and> j < length groups \<and> i \<noteq> j \<longrightarrow>
              (\<forall>c1 \<in> set (groups ! i). \<forall>c2 \<in> set (groups ! j).
                 set (fst c1) \<inter> set (fst c2) = {})"
      using disj by (intro allI impI ballI) (elim conjE)
    show "\<forall>c1 \<in> set constraints. \<forall>c2 \<in> set constraints.
              set (fst c1) \<inter> set (fst c2) \<noteq> {} \<longrightarrow>
              (\<exists>g \<in> set groups. c1 \<in> set g \<and> c2 \<in> set g)"
      using share by (intro ballI impI)
  qed
qed


lemma regions_example:
  "find_independent_regions 10 [([(0, 0), (0, 1)], 1), ([(5, 5)], 1), ([(0, 1), (0, 2)], 1)] =
     Inr [[([(0, 0), (0, 1)], 1), ([(0, 1), (0, 2)], 1)], [([(5, 5)], 1)]]"
  by code_simp

theorem find_independent_regions_partition_witness:
  "[([(0, 0), (0, 1)], 1), ([(5, 5)], 1), ([(0, 1), (0, 2)], 1 :: int)] \<noteq> ([] :: listed_constraint list) \<and>
   length (concat (map fst [([(0, 0), (0, 1)], 1), ([(5, 5)], 1), ([(0, 1), (0, 2 :: int) :: coord], 1 :: int)])) < 10 \<and>
   find_independent_regions 10 [([(0, 0), (0, 1)], 1), ([(5, 5)], 1), ([(0, 1), (0, 2)], 1)] =
     Inr [[([(0, 0), (0, 1)], 1), ([(0, 1), (0, 2)], 1)], [([(5, 5)], 1)]] \<and>
   set (fst ([(0, 0), (0, 1 :: int) :: coord], 1 :: int)) \<inter> set (fst ([(5, 5 :: int) :: coord], 1 :: int)) = {}"
proof -
  let ?cs = "[([(0, 0), (0, 1)], 1), ([(5, 5)], 1), ([(0, 1), (0, 2)], 1)] :: listed_constraint list"
  have h: "?cs \<noteq> []" "\<forall>c \<in> set ?cs. fst c \<noteq> []" "length (concat (map fst ?cs)) < 10"
    by simp_all
  from find_independent_regions_partition [OF h] obtain groups where
    g: "find_independent_regions 10 ?cs = Inr groups"
    and d: "\<forall>i j. i < length groups \<and> j < length groups \<and> i \<noteq> j \<longrightarrow>
              (\<forall>c1 \<in> set (groups ! i). \<forall>c2 \<in> set (groups ! j).
                 set (fst c1) \<inter> set (fst c2) = {})"
    by blast
  from g have groups: "groups = [[([(0, 0), (0, 1)], 1), ([(0, 1), (0, 2)], 1)], [([(5, 5)], 1)]]"
    by (simp add: regions_example)
  from d [rule_format, of 0 1 "([(0, 0), (0, 1)], 1)" "([(5, 5)], 1)"]
  have "set (fst ([(0, 0), (0, 1 :: int) :: coord], 1 :: int)) \<inter> set (fst ([(5, 5 :: int) :: coord], 1 :: int)) = {}"
    by (simp add: groups)
  with h(1,3) regions_example show ?thesis by blast
qed

section \<open>The probabilistic move (Solver.make_probabilistic_move)\<close>

text \<open>
  \<open>make_probabilistic_move\<close> reads the board and the total number of mines given to the
  constructor. Three things that Python decides at run time are parameters or part of the
  result here: \<open>depth\<close> is the number of nested calls of \<open>find\<close> that the interpreter
  allows, \<open>order\<close> gives the order in which a frozenset of cells is iterated, and the result
  is the set of the cells that the call can return, since \<open>random.choice\<close> may return any
  element of its list and \<open>min\<close> returns one of the keys of least value, the first one in
  the order of the dictionary.
\<close>

text \<open>The cells collected by the first scan: neither revealed nor flagged.\<close>

definition unrevealed_cells :: "board \<Rightarrow> int \<Rightarrow> int \<Rightarrow> coord set" where
  "unrevealed_cells board rows cols =
     set (filter (\<lambda>p. \<not> is_revealed (cell_at board p) \<and> \<not> is_flagged (cell_at board p))
            (scan rows cols))"

text \<open>The union of the cell sets of the constraints (\<open>border_cells\<close>, \<open>region_cells\<close>).\<close>

definition border_cells :: "constraint list \<Rightarrow> coord set" where
  "border_cells constraints = fold (\<lambda>c border. border \<union> fst c) constraints {}"

definition region_cells :: "listed_constraint list \<Rightarrow> coord set" where
  "region_cells region_constraints = fold (\<lambda>c cells. cells \<union> set (fst c)) region_constraints {}"

text \<open>
  The body of the loop over the regions: a region without cells is skipped, the
  probabilities of the others are written into the dictionary.
\<close>

definition region_step ::
  "listed_constraint list \<Rightarrow> (coord \<rightharpoonup> real) \<Rightarrow> error + (coord \<rightharpoonup> real)" where
  "region_step region_constraints cell_probabilities =
     (if region_cells region_constraints = {} then Inr cell_probabilities
      else
        case calculate_probabilities (map (\<lambda>c. (set (fst c), snd c)) region_constraints)
               (region_cells region_constraints) of
          Inl e \<Rightarrow> Inl e
        | Inr probabilities \<Rightarrow> Inr (cell_probabilities ++ probabilities))"

text \<open>The number of flagged cells, counted by the second scan.\<close>

definition flagged_mines :: "board \<Rightarrow> int \<Rightarrow> int \<Rightarrow> int" where
  "flagged_mines board rows cols =
     int (length (filter (\<lambda>p. is_flagged (cell_at board p)) (scan rows cols)))"

text \<open>\<open>cell_probabilities.get(cell, 0.5)\<close>.\<close>

definition get_or_half :: "(coord \<rightharpoonup> real) \<Rightarrow> coord \<Rightarrow> real" where
  "get_or_half cell_probabilities cell =
     (case cell_probabilities cell of None \<Rightarrow> 1 / 2 | Some v \<Rightarrow> v)"

text \<open>
  The value given to every interior cell:
  \<open>max(0.0, remaining_mines / len(interior_cells))\<close>. Nothing bounds it from above.
\<close>

definition interior_probability ::
  "int \<Rightarrow> int \<Rightarrow> coord set \<Rightarrow> coord set \<Rightarrow> (coord \<rightharpoonup> real) \<Rightarrow> real" where
  "interior_probability total_mines flagged border interior cell_probabilities =
     (let border_mine_count = sum (get_or_half cell_probabilities) border;
          remaining_mines = real_of_int (total_mines - flagged) - border_mine_count
      in max 0 (remaining_mines / real (card interior)))"

text \<open>
  The dictionary \<open>cell_probabilities\<close> when the selection starts, for a board with at
  least one constraint.
\<close>

definition move_probabilities ::
  "int \<Rightarrow> nat \<Rightarrow> (coord set \<Rightarrow> coord list) \<Rightarrow> board \<Rightarrow> int \<Rightarrow> int \<Rightarrow> coord set \<Rightarrow>
     constraint list \<Rightarrow> error + (coord \<rightharpoonup> real)" where
  "move_probabilities total_mines depth order board rows cols unrevealed constraints =
     (let border = border_cells constraints;
          interior = unrevealed - border
      in case find_independent_regions depth (map (\<lambda>c. (order (fst c), snd c)) constraints) of
           Inl e \<Rightarrow> Inl e
         | Inr independent_regions \<Rightarrow>
             (case for_each region_step independent_regions Map.empty of
                Inl e \<Rightarrow> Inl e
              | Inr cell_probabilities \<Rightarrow>
                  if interior \<noteq> {}
                  then Inr (\<lambda>cell. if cell \<in> interior
                                   then Some (interior_probability total_mines
                                                (flagged_mines board rows cols) border interior
                                                cell_probabilities)
                                   else cell_probabilities cell)
                  else Inr cell_probabilities))"

text \<open>
  The whole method. The first scan reads every cell of the board, so a board that is not
  rectangular raises \<open>IndexError\<close>.
\<close>

definition make_probabilistic_move ::
  "int \<Rightarrow> nat \<Rightarrow> (coord set \<Rightarrow> coord list) \<Rightarrow> board \<Rightarrow> error + coord set" where
  "make_probabilistic_move total_mines depth order board =
     (let rows = board_rows board; cols = board_cols board
      in if \<not> covers board rows cols then Inl IndexError
         else
           let unrevealed = unrevealed_cells board rows cols
           in if unrevealed = {} then Inr {(0, 0)}
              else
                (case generate_constraints board rows cols {} {} of
                   Inl e \<Rightarrow> Inl e
                 | Inr constraints \<Rightarrow>
                     if constraints = [] then Inr unrevealed
                     else
                       (case move_probabilities total_mines depth order board rows cols
                               unrevealed constraints of
                          Inl e \<Rightarrow> Inl e
                        | Inr cell_probabilities \<Rightarrow>
                            if dom cell_probabilities \<noteq> {}
                            then Inr {c \<in> dom cell_probabilities.
                                        \<forall>c' \<in> dom cell_probabilities.
                                          the (cell_probabilities c) \<le> the (cell_probabilities c')}
                            else Inr unrevealed)))"

text \<open>
  A row of six cells with three mines, at the two ends and next to the right end. The two
  revealed cells both show 1, and both constraints contain the hidden cell between them.
\<close>

definition board_overlap :: board where
  "board_overlap = [[mine_cell, number_cell 1, hidden_cell, number_cell 1, mine_cell, mine_cell]]"

subsection \<open>The move is an unresolved cell\<close>

lemma border_cells_eq: "border_cells cs = \<Union> (fst ` set cs)"
proof -
  have "fold (\<lambda>c border. border \<union> fst c) cs A = A \<union> \<Union> (fst ` set cs)" for A
    by (induction cs arbitrary: A) auto
  then show ?thesis by (simp add: border_cells_def)
qed

lemma region_cells_eq: "region_cells r = (\<Union>c \<in> set r. set (fst c))"
proof -
  have "fold (\<lambda>c cells. cells \<union> set (fst c)) r A = A \<union> (\<Union>c \<in> set r. set (fst c))" for A
    by (induction r arbitrary: A) auto
  then show ?thesis by (simp add: region_cells_def)
qed

lemma region_step_ok:
  "\<exists>p. region_step r probs = Inr p \<and> dom p = dom probs \<union> region_cells r"
proof (cases "region_cells r = {}")
  case True
  then show ?thesis by (simp add: region_step_def)
next
  case False
  have "finite (region_cells r)"
    by (simp add: region_cells_eq)
  moreover have "\<forall>c \<in> set (map (\<lambda>c. (set (fst c), snd c)) r). finite (fst c)"
    by simp
  ultimately have "calculate_probabilities (map (\<lambda>c. (set (fst c), snd c)) r) (region_cells r) =
      Inr (\<lambda>cell. if cell \<in> region_cells r
                   then Some (spec_probability (map (\<lambda>c. (set (fst c), snd c)) r) (region_cells r) cell)
                   else None)"
    by (rule calculate_probabilities_spec)
  with False show ?thesis
    by (auto simp: region_step_def dom_def map_add_def split: if_splits)
qed

lemma regions_loop_ok:
  "\<exists>p. for_each region_step rs probs = Inr p \<and> dom p = dom probs \<union> (\<Union>r \<in> set rs. region_cells r)"
proof (induction rs arbitrary: probs)
  case Nil
  then show ?case by simp
next
  case (Cons r rs)
  from region_step_ok [of r probs] obtain p1 where
    p1: "region_step r probs = Inr p1" "dom p1 = dom probs \<union> region_cells r" by blast
  from Cons.IH [of p1] obtain p where
    "for_each region_step rs p1 = Inr p" "dom p = dom p1 \<union> (\<Union>r \<in> set rs. region_cells r)"
    by blast
  with p1 show ?case by auto
qed

lemma regions_cover:
  assumes "constraints \<noteq> []"
    and "\<forall>c \<in> set constraints. fst c \<noteq> []"
    and "length (concat (map fst constraints)) < depth"
  shows "\<exists>groups. find_independent_regions depth constraints = Inr groups \<and>
           mset (concat groups) = mset constraints"
proof -
  from regions_grouped [OF assms(2,3)] assms(1) obtain uf1 uf regions where
    "find_independent_regions depth constraints = Inr (map snd regions)"
    "grouped (int (length (concat (map fst constraints)))) uf1 constraints (uf, regions)"
    by blast
  then show ?thesis
    unfolding grouped_def by simp
qed

lemma move_probabilities_ok:
  assumes ne: "constraints \<noteq> []"
    and cs: "\<forall>c \<in> set constraints. fst c \<noteq> {} \<and> finite (fst c) \<and> fst c \<subseteq> unrevealed"
    and order: "\<forall>s. finite s \<longrightarrow> set (order s) = s"
    and depth: "length (concat (map (\<lambda>c. order (fst c)) constraints)) < depth"
  shows "\<exists>probs. move_probabilities total_mines depth order board rows cols unrevealed constraints =
                    Inr probs \<and> dom probs = unrevealed"
proof -
  let ?listed = "map (\<lambda>c. (order (fst c), snd c)) constraints"
  have l1: "?listed \<noteq> []" using ne by simp
  have l2: "\<forall>c \<in> set ?listed. fst c \<noteq> []"
  proof
    fix c assume "c \<in> set ?listed"
    then obtain c0 where c0: "c0 \<in> set constraints" "c = (order (fst c0), snd c0)" by auto
    with cs order have "set (order (fst c0)) = fst c0" "fst c0 \<noteq> {}" by auto
    with c0 show "fst c \<noteq> []" by auto
  qed
  have l3: "length (concat (map fst ?listed)) < depth"
    using depth by (simp add: comp_def)
  from regions_cover [OF l1 l2 l3] obtain groups where
    g: "find_independent_regions depth ?listed = Inr groups"
    and ms: "mset (concat groups) = mset ?listed" by blast
  from regions_loop_ok [of groups Map.empty] obtain p where
    p: "for_each region_step groups Map.empty = Inr p"
    and dp: "dom p = (\<Union>r \<in> set groups. region_cells r)" by auto
  from ms have eq: "set (concat groups) = set ?listed"
    by (rule mset_eq_setD)
  have "(\<Union>r \<in> set groups. region_cells r) = (\<Union>c \<in> set (concat groups). set (fst c))"
    by (auto simp: region_cells_eq)
  also have "\<dots> = (\<Union>c \<in> set ?listed. set (fst c))"
    by (simp only: eq)
  also have "\<dots> = (\<Union>c \<in> set constraints. set (order (fst c)))"
    by auto
  also have "\<dots> = (\<Union>c \<in> set constraints. fst c)"
    using cs order by auto
  finally have dp': "dom p = border_cells constraints"
    using dp by (simp add: border_cells_eq)
  have sub: "border_cells constraints \<subseteq> unrevealed"
    using cs by (auto simp: border_cells_eq)
  show ?thesis
  proof (cases "unrevealed - border_cells constraints = {}")
    case True
    with sub have "border_cells constraints = unrevealed" by auto
    with g p dp' True show ?thesis
      by (simp add: move_probabilities_def)
  next
    case False
    let ?m = "\<lambda>cell. if cell \<in> unrevealed - border_cells constraints
                      then Some (interior_probability total_mines (flagged_mines board rows cols)
                                   (border_cells constraints) (unrevealed - border_cells constraints) p)
                      else p cell"
    have "dom ?m = unrevealed"
      using dp' sub by (auto simp: dom_def split: if_splits)
    moreover have "move_probabilities total_mines depth order board rows cols unrevealed constraints =
            Inr ?m"
      using g p False by (simp add: move_probabilities_def Let_def)
    ultimately show ?thesis by blast
  qed
qed

lemma unrevealed_cells_open: "unrevealed_cells board rows cols = open_cells board rows cols {} {}"
  by (auto simp: unrevealed_cells_def open_cells_def grid_def unknown_def)

lemma minimal_keys:
  assumes "finite (dom (m :: coord \<rightharpoonup> real))" "dom m \<noteq> {}"
  shows "{c \<in> dom m. \<forall>c' \<in> dom m. the (m c) \<le> the (m c')} \<noteq> {}"
proof -
  from assms obtain c where "c \<in> dom m" "\<forall>c' \<in> dom m. the (m c) \<le> the (m c')"
    using ex_min_if_finite [of "(\<lambda>c. the (m c)) ` dom m"]
    by (metis (no_types, lifting) arg_min_least arg_min_if_finite(1))
  then show ?thesis by blast
qed

text \<open>
  Claim C7, in the form that holds of the code. On a rectangular board, with any iteration order of the cell sets and
  a recursion limit above the number of cells listed in the constraints,
  \<open>make_probabilistic_move\<close> returns. If the board has a cell that is neither revealed nor
  flagged, every cell that the call can return is such a cell, and if moreover there is no
  constraint, the call can return each of them (\<open>random.choice\<close>). If the board has no
  such cell, the call returns \<open>(0, 0)\<close>.
\<close>

theorem make_probabilistic_move_unresolved:
  assumes "covers board (board_rows board) (board_cols board)"
    and "\<forall>s. finite s \<longrightarrow> set (order s) = s"
    and "length (concat (map (\<lambda>c. order (fst c))
           (constraints_scan board (board_rows board) (board_cols board) {} {}))) < depth"
  shows "\<exists>results.
           make_probabilistic_move total_mines depth order board = Inr results \<and> results \<noteq> {} \<and>
           (if unrevealed_cells board (board_rows board) (board_cols board) = {}
            then results = {(0, 0)}
            else results \<subseteq> unrevealed_cells board (board_rows board) (board_cols board) \<and>
                 (constraints_scan board (board_rows board) (board_cols board) {} {} = [] \<longrightarrow>
                    results = unrevealed_cells board (board_rows board) (board_cols board)))"
proof -
  let ?rows = "board_rows board" and ?cols = "board_cols board"
  let ?U = "unrevealed_cells board ?rows ?cols"
  let ?cs = "constraints_scan board ?rows ?cols {} {}"
  show ?thesis
  proof (cases "?U = {}")
    case True
    with assms(1) show ?thesis
      by (simp add: make_probabilistic_move_def)
  next
    case U: False
    show ?thesis
    proof (cases "?cs = []")
      case True
      with U assms(1) show ?thesis
        by (simp add: make_probabilistic_move_def generate_constraints_def)
    next
      case False
      have cs: "\<forall>c \<in> set ?cs. fst c \<noteq> {} \<and> finite (fst c) \<and> fst c \<subseteq> ?U"
        using constraints_scan_limits [of _ board ?rows ?cols "{}" "{}"]
        by (simp add: unrevealed_cells_open)
      from move_probabilities_ok [OF False cs assms(2,3)] obtain probs where
        m: "move_probabilities total_mines depth order board ?rows ?cols ?U ?cs = Inr probs"
        and d: "dom probs = ?U" by blast
      have "finite ?U" by (simp add: unrevealed_cells_def)
      with d U have "{c \<in> dom probs. \<forall>c' \<in> dom probs. the (probs c) \<le> the (probs c')} \<noteq> {}"
        by (intro minimal_keys) simp_all
      moreover have "{c \<in> dom probs. \<forall>c' \<in> dom probs. the (probs c) \<le> the (probs c')} \<subseteq> ?U"
        using d by blast
      moreover have "make_probabilistic_move total_mines depth order board =
          Inr {c \<in> dom probs. \<forall>c' \<in> dom probs. the (probs c) \<le> the (probs c')}"
        using U False assms(1) m d
        by (simp add: make_probabilistic_move_def generate_constraints_def Let_def)
      ultimately show ?thesis
        using U False by simp
    qed
  qed
qed


theorem make_probabilistic_move_unresolved_witness:
  "covers board_overlap (board_rows board_overlap) (board_cols board_overlap) \<and>
   length (concat (map (\<lambda>c. sorted_list_of_set (fst c))
     (constraints_scan board_overlap (board_rows board_overlap) (board_cols board_overlap) {} {}))) < 10 \<and>
   unrevealed_cells board_overlap (board_rows board_overlap) (board_cols board_overlap) =
     {(0, 0), (0, 2), (0, 4), (0, 5)} \<and>
   (case make_probabilistic_move 3 10 sorted_list_of_set board_overlap of
      Inl e \<Rightarrow> False
    | Inr results \<Rightarrow> results \<noteq> {} \<and> results \<subseteq> {(0, 0), (0, 2), (0, 4), (0, 5)})"
proof -
  have c: "covers board_overlap (board_rows board_overlap) (board_cols board_overlap)"
    by code_simp
  have o: "\<forall>s :: coord set. finite s \<longrightarrow> set (sorted_list_of_set s) = s"
    by simp
  have d: "length (concat (map (\<lambda>c. sorted_list_of_set (fst c))
     (constraints_scan board_overlap (board_rows board_overlap) (board_cols board_overlap) {} {}))) < 10"
    by code_simp
  have u: "unrevealed_cells board_overlap (board_rows board_overlap) (board_cols board_overlap) =
     {(0, 0), (0, 2), (0, 4), (0, 5)}"
    by code_simp
  from make_probabilistic_move_unresolved [OF c o d, of 3] obtain results where
    "make_probabilistic_move 3 10 sorted_list_of_set board_overlap = Inr results"
    "results \<noteq> {}"
    "results \<subseteq> unrevealed_cells board_overlap (board_rows board_overlap) (board_cols board_overlap)"
    unfolding u by (auto split: if_splits)
  with c d u show ?thesis by simp
qed

text \<open>A finished game: the number is revealed and the mine is flagged.\<close>

definition flagged_cell :: Cell where
  "flagged_cell = \<lparr>is_mine = True, is_revealed = False, is_flagged = True, adjacent_mines = 0\<rparr>"

definition board_won :: board where
  "board_won = [[number_cell 1, flagged_cell]]"

text \<open>
  On the finished game no cell is left, and the call returns \<open>(0, 0)\<close>, a revealed cell.
\<close>

theorem make_probabilistic_move_resolved:
  "board_rows board_won = 1 \<and> board_cols board_won = 2 \<and>
   make_probabilistic_move 1 10 sorted_list_of_set board_won = Inr {(0, 0)} \<and>
   is_revealed (cell_at board_won (0, 0)) \<and>
   unrevealed_cells board_won 1 2 = {}"
proof -
  have b: "board_rows board_won = 1" "board_cols board_won = 2" "covers board_won 1 2"
    "unrevealed_cells board_won 1 2 = {}" "is_revealed (cell_at board_won (0, 0))"
    by code_simp+
  then show ?thesis
    by (simp add: make_probabilistic_move_def)
qed


subsection \<open>The probability of an interior cell\<close>







end
